theory Spec2Isabelle
  imports Complex_Main "HOL-Library.Multiset"
begin

section \<open>Image Loop Player: data model\<close>

text \<open>
  The application is one React component (\<^verbatim>\<open>App\<close>) and a storage module.  Array
  indices and lengths are naturals; wall-clock time is in whole milliseconds.  Results
  of browser calls that the program cannot predict (file reading, object URLs, UUIDs)
  are inputs of the model.
\<close>

subsection \<open>Numbers\<close>

text \<open>
  A JavaScript number that holds an interval: a real, or \<^verbatim>\<open>NaN\<close>.  \<^verbatim>\<open>Math.max\<close> and
  \<^verbatim>\<open>Math.min\<close> answer \<^verbatim>\<open>NaN\<close> as soon as one argument is \<^verbatim>\<open>NaN\<close>; the comparison
  \<^verbatim>\<open><=\<close> is false as soon as one side is \<^verbatim>\<open>NaN\<close>.  (The infinities behave under
  the clamp like very large and very small reals and are not kept apart.)
\<close>

datatype number = Num (num_val: real) | NaN

definition Math_max :: "number \<Rightarrow> number \<Rightarrow> number" where
  "Math_max a b =
     (case a of NaN \<Rightarrow> NaN | Num x \<Rightarrow> (case b of NaN \<Rightarrow> NaN | Num y \<Rightarrow> Num (max x y)))"

definition Math_min :: "number \<Rightarrow> number \<Rightarrow> number" where
  "Math_min a b =
     (case a of NaN \<Rightarrow> NaN | Num x \<Rightarrow> (case b of NaN \<Rightarrow> NaN | Num y \<Rightarrow> Num (min x y)))"

definition num_le :: "number \<Rightarrow> number \<Rightarrow> bool" where
  "num_le a b =
     (case a of NaN \<Rightarrow> False | Num x \<Rightarrow> (case b of NaN \<Rightarrow> False | Num y \<Rightarrow> x \<le> y))"

text \<open>
  The delay \<^verbatim>\<open>setTimeout\<close> uses when it is given a number: \<^verbatim>\<open>NaN\<close> and negative
  values count as 0.
\<close>

definition timer_delay :: "number \<Rightarrow> real" where
  "timer_delay v = (case v of NaN \<Rightarrow> 0 | Num x \<Rightarrow> max 0 x)"

subsection \<open>Records of the source\<close>

record ImageItem =
  iid :: string
  iname :: string
  url :: string
  dataUrl :: string

record SessionImage =
  sid :: string
  sname :: string
  sdataUrl :: string

text \<open>
  \<^verbatim>\<open>SessionData\<close>.  The interval of a stored snapshot is read with
  \<^verbatim>\<open>session.intervalMs ?? 100\<close>, so it may be absent: \<open>None\<close>.
\<close>

record SessionData =
  s_intervalMs :: "number option"
  s_images :: "SessionImage list"

text \<open>
  A file handed to \<^verbatim>\<open>handleFiles\<close>, with what the browser answers for it:
  \<open>file_dataUrl\<close> is the result of \<^verbatim>\<open>fileToDataUrl\<close> (\<open>None\<close> when the reader fails),
  \<open>file_objectUrl\<close> the result of \<^verbatim>\<open>URL.createObjectURL\<close>, \<open>file_uuid\<close> the value
  \<^verbatim>\<open>crypto.randomUUID()\<close> draws for it.
\<close>

record File =
  file_name :: string
  file_dataUrl :: "string option"
  file_objectUrl :: string
  file_uuid :: string

definition MIN_INTERVAL :: number where "MIN_INTERVAL = Num 16"
definition MAX_INTERVAL :: number where "MAX_INTERVAL = Num 10000"
definition MAX_IMAGES :: nat where "MAX_IMAGES = 50"
definition SAVE_DEBOUNCE_MS :: nat where "SAVE_DEBOUNCE_MS = 400"

subsection \<open>Callbacks held by the browser\<close>

text \<open>
  A pending \<^verbatim>\<open>setTimeout\<close> callback is either the debounced save, with the payload its
  closure captured, or the playback \<^verbatim>\<open>tick\<close>, with the \<^verbatim>\<open>images.length\<close> and
  \<^verbatim>\<open>clampedInterval\<close> of the render that created it.  A pending
  \<^verbatim>\<open>requestAnimationFrame\<close> callback is \<^verbatim>\<open>step\<close>, with the captured \<^verbatim>\<open>isPlaying\<close>,
  \<^verbatim>\<open>images.length\<close>, \<^verbatim>\<open>clampedInterval\<close> and the current value of its variable
  \<^verbatim>\<open>start\<close>.
\<close>

datatype timer_callback =
    is_SaveCb: SaveCb (save_payload: SessionData)
  | is_TickCb: TickCb (tick_len: nat) (tick_interval: number)

datatype frame_callback =
    StepCb (step_playing: bool) (step_len: nat) (step_interval: number) (step_start: real)

record timer_entry =
  t_handle :: nat
  t_due :: real
  t_callback :: timer_callback

record frame_entry =
  f_handle :: nat
  f_callback :: frame_callback

subsection \<open>The state\<close>

text \<open>
  The React state and refs of \<^verbatim>\<open>App\<close> (first group), the handle the cleanup of the
  save effect closes over and the \<^verbatim>\<open>handleFiles\<close> calls still awaiting their files
  (second group), and the browser (third group): clock, timer and frame tables,
  whether \<^verbatim>\<open>loadSession\<close> is still outstanding, the stored snapshot and the log of
  \<^verbatim>\<open>saveSession\<close> calls with the time of each.
\<close>

record app =
  images :: "ImageItem list"
  intervalMs :: number
  isPlaying :: bool
  currentIndex :: nat
  timeoutRef :: "nat option"
  rafRef :: "nat option"
  dragItem :: "nat option"
  dragOverItem :: "nat option"

  saveTimer :: "nat option"
  inflight :: "ImageItem list list"

  clock :: nat
  nextHandle :: nat
  timers :: "timer_entry list"
  frames :: "frame_entry list"
  loadPending :: bool
  store :: "SessionData option"
  writes :: "(nat \<times> SessionData) list"

definition clampedInterval :: "app \<Rightarrow> number" where
  "clampedInterval w = Math_min (Math_max (intervalMs w) MIN_INTERVAL) MAX_INTERVAL"

section \<open>Event handlers\<close>

subsection \<open>handleRemove\<close>

definition handleRemove :: "string \<Rightarrow> app \<Rightarrow> app" where
  "handleRemove ident w =
     (let next = filter (\<lambda>img. iid img \<noteq> ident) (images w)
      in w\<lparr>images := next,
            currentIndex :=
              (if length next = 0 then 0
               else if currentIndex w \<ge> length next then 0 else currentIndex w)\<rparr>)"

subsection \<open>handleIntervalChange, handleStart\<close>

definition handleIntervalChange :: "number \<Rightarrow> app \<Rightarrow> app" where
  "handleIntervalChange v w =
     (let clamped = Math_min (Math_max v MIN_INTERVAL) MAX_INTERVAL
      in w\<lparr>intervalMs := clamped\<rparr>)"

definition handleStart :: "app \<Rightarrow> app" where
  "handleStart w = (if length (images w) = 0 then w else w\<lparr>isPlaying := True\<rparr>)"

subsection \<open>Drag and drop reordering\<close>

definition onDragStart :: "nat \<Rightarrow> app \<Rightarrow> app" where
  "onDragStart index w = w\<lparr>dragItem := Some index\<rparr>"

definition onDragEnter :: "nat \<Rightarrow> app \<Rightarrow> app" where
  "onDragEnter index w = w\<lparr>dragOverItem := Some index\<rparr>"

text \<open>
  \<^verbatim>\<open>xs.splice(start, 1)\<close>: the removed elements (none when \<open>start\<close> is past the end)
  and the array that remains.  \<^verbatim>\<open>xs.splice(end, 0, x)\<close>: \<open>x\<close> inserted at \<open>end\<close>, or
  appended when \<open>end\<close> is past the end.
\<close>

definition splice_remove :: "nat \<Rightarrow> 'a list \<Rightarrow> 'a list \<times> 'a list" where
  "splice_remove start xs = (take 1 (drop start xs), take start xs @ drop (Suc start) xs)"

definition splice_insert :: "nat \<Rightarrow> 'a \<Rightarrow> 'a list \<Rightarrow> 'a list" where
  "splice_insert end x xs = take end xs @ x # drop end xs"

text \<open>
  The updater passed to \<^verbatim>\<open>setImages\<close> by \<^verbatim>\<open>onDragEnd\<close>.  \<^verbatim>\<open>const [moved] = ...\<close>
  yields \<^verbatim>\<open>undefined\<close> when nothing was removed, and that value is then inserted:
  the resulting array is a list of options, \<open>None\<close> standing for \<^verbatim>\<open>undefined\<close>.
\<close>

definition reorder :: "nat \<Rightarrow> nat \<Rightarrow> 'a list \<Rightarrow> 'a option list" where
  "reorder start end prev =
     (let (removed, next) = splice_remove start (map Some prev);
          moved = (case removed of [] \<Rightarrow> None | m # _ \<Rightarrow> m)
      in splice_insert end moved next)"

text \<open>
  \<^verbatim>\<open>onDragEnd\<close>.  The result is \<open>None\<close> when the new array holds \<^verbatim>\<open>undefined\<close>: such
  an array is no \<^verbatim>\<open>ImageItem[]\<close> and the next render fails on it.
\<close>

definition onDragEnd :: "app \<Rightarrow> app option" where
  "onDragEnd w =
     (let start = dragItem w; end = dragOverItem w;
          w0 = w\<lparr>dragItem := None, dragOverItem := None\<rparr>
      in if start = None \<or> end = None \<or> start = end then Some w0
         else (case those (reorder (the start) (the end) (images w0)) of
                 None \<Rightarrow> None
               | Some next \<Rightarrow> Some (w0\<lparr>images := next, currentIndex := 0\<rparr>)))"

subsection \<open>handleFiles\<close>

text \<open>
  The part of \<^verbatim>\<open>handleFiles\<close> before the state update: the selection by remaining
  capacity, the items built from the selected files (\<^verbatim>\<open>Promise.all\<close> rejects when one
  file cannot be read, and then nothing below it runs), and the \<^verbatim>\<open>alert\<close>, which
  carries \<^verbatim>\<open>MAX_IMAGES\<close> and \<^verbatim>\<open>selected.length\<close>.
\<close>

datatype files_outcome =
    NoFiles
  | ReadFailed
  | Batch "ImageItem list" "(nat \<times> nat) option"

definition toItem :: "File \<Rightarrow> ImageItem option" where
  "toItem file =
     (case file_dataUrl file of
        None \<Rightarrow> None
      | Some d \<Rightarrow> Some \<lparr>iid = file_uuid file, iname = file_name file,
                        url = file_objectUrl file, dataUrl = d\<rparr>)"

definition handleFiles_select :: "File list option \<Rightarrow> app \<Rightarrow> files_outcome" where
  "handleFiles_select files w =
     (case files of
        None \<Rightarrow> NoFiles
      | Some fs \<Rightarrow>
          (let currentCount = length (images w);
               available = nat (max 0 (int MAX_IMAGES - int currentCount));
               selected = take available fs
           in case those (map toItem selected) of
                None \<Rightarrow> ReadFailed
              | Some next \<Rightarrow>
                  Batch next (if length selected < length fs
                              then Some (MAX_IMAGES, length selected) else None)))"

text \<open>The two state updates at the end of \<^verbatim>\<open>handleFiles\<close>.\<close>

definition handleFiles_commit :: "ImageItem list \<Rightarrow> app \<Rightarrow> app" where
  "handleFiles_commit next w =
     w\<lparr>images := images w @ next,
       currentIndex := (if currentIndex w \<ge> 0 then currentIndex w else 0)\<rparr>"


subsection \<open>Restoring the session\<close>

text \<open>
  The body of the load effect once \<^verbatim>\<open>loadSession\<close> has answered with a session.
  \<open>toUrl\<close> is \<^verbatim>\<open>dataUrlToObjectUrl\<close> (\<open>None\<close> when the fetch fails: the \<^verbatim>\<open>catch\<close>
  branch logs the error and leaves the state alone).  \<^verbatim>\<open>??\<close> replaces only an absent
  interval; a stored \<^verbatim>\<open>NaN\<close> goes into the clamp as it is.
\<close>

definition restoreItem :: "(string \<Rightarrow> string option) \<Rightarrow> SessionImage \<Rightarrow> ImageItem option" where
  "restoreItem toUrl img =
     (case toUrl (sdataUrl img) of
        None \<Rightarrow> None
      | Some u \<Rightarrow> Some \<lparr>iid = sid img, iname = sname img, url = u, dataUrl = sdataUrl img\<rparr>)"

definition restore :: "(string \<Rightarrow> string option) \<Rightarrow> SessionData \<Rightarrow> app \<Rightarrow> app option" where
  "restore toUrl session w =
     (case those (map (restoreItem toUrl) (take MAX_IMAGES (s_images session))) of
        None \<Rightarrow> None
      | Some restored \<Rightarrow>
          Some (w\<lparr>images := restored,
                  intervalMs :=
                    Math_min
                      (Math_max (case s_intervalMs session of None \<Rightarrow> Num 100 | Some v \<Rightarrow> v)
                                MIN_INTERVAL)
                      MAX_INTERVAL\<rparr>))"

section \<open>Timers, effects and the event loop\<close>

subsection \<open>Browser primitives\<close>

definition setTimeout :: "timer_callback \<Rightarrow> real \<Rightarrow> app \<Rightarrow> nat \<times> app" where
  "setTimeout cb delay w =
     (nextHandle w,
      w\<lparr>nextHandle := Suc (nextHandle w),
        timers := timers w @
          [\<lparr>t_handle = nextHandle w, t_due = real (clock w) + delay, t_callback = cb\<rparr>]\<rparr>)"

definition clearTimeout :: "nat \<Rightarrow> app \<Rightarrow> app" where
  "clearTimeout h w = w\<lparr>timers := filter (\<lambda>e. t_handle e \<noteq> h) (timers w)\<rparr>"

definition requestAnimationFrame :: "frame_callback \<Rightarrow> app \<Rightarrow> nat \<times> app" where
  "requestAnimationFrame cb w =
     (nextHandle w,
      w\<lparr>nextHandle := Suc (nextHandle w),
        frames := frames w @ [\<lparr>f_handle = nextHandle w, f_callback = cb\<rparr>]\<rparr>)"

definition cancelAnimationFrame :: "nat \<Rightarrow> app \<Rightarrow> app" where
  "cancelAnimationFrame h w = w\<lparr>frames := filter (\<lambda>e. f_handle e \<noteq> h) (frames w)\<rparr>"

subsection \<open>clearTimers, handleStop\<close>

definition clearTimers :: "app \<Rightarrow> app" where
  "clearTimers w =
     (let w1 = (case timeoutRef w of
                  None \<Rightarrow> w
                | Some h \<Rightarrow> (clearTimeout h w)\<lparr>timeoutRef := None\<rparr>)
      in case rafRef w1 of
           None \<Rightarrow> w1
         | Some h \<Rightarrow> (cancelAnimationFrame h w1)\<lparr>rafRef := None\<rparr>)"

definition handleStop :: "app \<Rightarrow> app" where
  "handleStop w = clearTimers (w\<lparr>isPlaying := False\<rparr>)"

text \<open>The keyboard handler, for a press of Space outside a form control.\<close>

definition handleKey :: "app \<Rightarrow> app" where
  "handleKey w =
     (if length (images w) = 0 then w
      else if isPlaying w then handleStop w else handleStart w)"

subsection \<open>The debounced save effect\<close>

definition payload :: "app \<Rightarrow> SessionData" where
  "payload w =
     \<lparr>s_intervalMs = Some (clampedInterval w),
      s_images = map (\<lambda>img. \<lparr>sid = iid img, sname = iname img, sdataUrl = dataUrl img\<rparr>)
                     (images w)\<rparr>"

definition save_effect :: "app \<Rightarrow> app" where
  "save_effect w =
     (let (timer, w') = setTimeout (SaveCb (payload w)) (real SAVE_DEBOUNCE_MS) w
      in w'\<lparr>saveTimer := Some timer\<rparr>)"

definition save_cleanup :: "app \<Rightarrow> app" where
  "save_cleanup w = (case saveTimer w of None \<Rightarrow> w | Some timer \<Rightarrow> clearTimeout timer w)"

text \<open>
  The timer's callback: \<^verbatim>\<open>saveSession(payload)\<close>.  The call is logged with its time and
  the snapshot is put under the session key.
\<close>

definition saveSession :: "SessionData \<Rightarrow> app \<Rightarrow> app" where
  "saveSession p w = w\<lparr>store := Some p, writes := writes w @ [(clock w, p)]\<rparr>"

subsection \<open>The playback effect\<close>

text \<open>
  \<^verbatim>\<open>(idx + 1) % images.length\<close> is \<^verbatim>\<open>NaN\<close> for length 0: the callbacks below have no
  result then.
\<close>

definition tick :: "nat \<Rightarrow> number \<Rightarrow> app \<Rightarrow> app option" where
  "tick len ci w =
     (if len = 0 then None
      else (let w1 = w\<lparr>currentIndex := (currentIndex w + 1) mod len\<rparr>;
                (h, w2) = setTimeout (TickCb len ci) (timer_delay ci) w1
            in Some (w2\<lparr>timeoutRef := Some h\<rparr>)))"

definition step_frame :: "real \<Rightarrow> bool \<Rightarrow> nat \<Rightarrow> number \<Rightarrow> real \<Rightarrow> app \<Rightarrow> app option" where
  "step_frame now playing len ci start w =
     (if \<not> playing then Some w
      else if num_le ci (Num (now - start)) then
        (if len = 0 then None
         else (let w1 = w\<lparr>currentIndex := (currentIndex w + 1) mod len\<rparr>;
                   (h, w2) = requestAnimationFrame (StepCb playing len ci now) w1
               in Some (w2\<lparr>rafRef := Some h\<rparr>)))
      else (let (h, w2) = requestAnimationFrame (StepCb playing len ci start) w
            in Some (w2\<lparr>rafRef := Some h\<rparr>)))"

definition playback_effect :: "app \<Rightarrow> app" where
  "playback_effect w =
     (if \<not> isPlaying w \<or> length (images w) = 0 then clearTimers w
      else (let useRaf = num_le (clampedInterval w) (Num 32);
                start = real (clock w)
            in if useRaf then
                 (let (h, w') = requestAnimationFrame
                                  (StepCb (isPlaying w) (length (images w)) (clampedInterval w) start) w
                  in w'\<lparr>rafRef := Some h\<rparr>)
               else
                 (let (h, w') = setTimeout (TickCb (length (images w)) (clampedInterval w))
                                  (timer_delay (clampedInterval w)) w
                  in w'\<lparr>timeoutRef := Some h\<rparr>)))"

subsection \<open>Rendering\<close>

text \<open>
  After a handler has updated the state, React renders and runs the effects whose
  dependencies changed: first the cleanups of those effects, then their bodies, in
  the order of the source.  \<open>touched\<close> says that \<^verbatim>\<open>setImages\<close> was called (every call in
  the source passes a fresh array, so the dependency \<^verbatim>\<open>images\<close> differs).
\<close>

definition commit :: "bool \<Rightarrow> app \<Rightarrow> app \<Rightarrow> app" where
  "commit touched old new =
     (let s = (touched \<or> clampedInterval old \<noteq> clampedInterval new);
          p = (isPlaying old \<noteq> isPlaying new
               \<or> length (images old) \<noteq> length (images new)
               \<or> clampedInterval old \<noteq> clampedInterval new);
          c1 = (if s then save_cleanup new else new);
          c2 = (if p then clearTimers c1 else c1);
          b1 = (if s then save_effect c2 else c2)
      in if p then playback_effect b1 else b1)"

text \<open>
  The first render: the load effect starts \<^verbatim>\<open>loadSession\<close>, the save effect sets its
  timer, the playback effect finds nothing to play.  \<open>st\<close> is the snapshot in storage.
\<close>

definition mount :: "SessionData option \<Rightarrow> app" where
  "mount st =
     playback_effect (save_effect
       \<lparr>images = [], intervalMs = Num 100, isPlaying = False, currentIndex = 0,
        timeoutRef = None, rafRef = None, dragItem = None, dragOverItem = None,
        saveTimer = None, inflight = [],
        clock = 0, nextHandle = 0, timers = [], frames = [],
        loadPending = True, store = st, writes = []\<rparr>)"

subsection \<open>Events\<close>

datatype load_outcome = LoadFailed | NoSession | Session SessionData

datatype event =
    Elapse nat
  | TimerFires nat
  | FrameFires nat
  | LoadSettles load_outcome
  | FilesChosen "File list option"
  | FilesRead nat
  | Remove string
  | Start
  | Stop
  | SpaceKey
  | IntervalChange number
  | DragStart nat
  | DragEnter nat
  | DragEnd

text \<open>
  The browser runs the timer with handle \<open>h\<close>, if it is pending and due, and the
  animation-frame callback with handle \<open>h\<close>, if it is pending; the frame's timestamp
  is the clock.
\<close>

definition timer_fires :: "nat \<Rightarrow> app \<Rightarrow> app option" where
  "timer_fires h w =
     (case find (\<lambda>e. t_handle e = h) (timers w) of
        None \<Rightarrow> Some w
      | Some e \<Rightarrow>
          if t_due e \<le> real (clock w) then
            (let w0 = w\<lparr>timers := filter (\<lambda>e. t_handle e \<noteq> h) (timers w)\<rparr>
             in case t_callback e of
                  SaveCb p \<Rightarrow> Some (saveSession p w0)
                | TickCb len ci \<Rightarrow> tick len ci w0)
          else Some w)"

definition frame_fires :: "nat \<Rightarrow> app \<Rightarrow> app option" where
  "frame_fires h w =
     (case find (\<lambda>e. f_handle e = h) (frames w) of
        None \<Rightarrow> Some w
      | Some e \<Rightarrow>
          (let w0 = w\<lparr>frames := filter (\<lambda>e. f_handle e \<noteq> h) (frames w)\<rparr>
           in case f_callback e of
                StepCb playing len ci start \<Rightarrow>
                  step_frame (real (clock w)) playing len ci start w0))"

text \<open>
  One event.  A handler runs, then the render it causes.  \<open>None\<close>: the state has left
  the model (an \<^verbatim>\<open>undefined\<close> array element or a \<^verbatim>\<open>NaN\<close> index).  Drag events come
  from rendered list items, so their index is below the length at that moment.
\<close>

fun step :: "(string \<Rightarrow> string option) \<Rightarrow> event \<Rightarrow> app \<Rightarrow> app option" where
  "step toUrl (Elapse d) w = Some (w\<lparr>clock := clock w + d\<rparr>)"
| "step toUrl (TimerFires h) w = timer_fires h w"
| "step toUrl (FrameFires h) w = frame_fires h w"
| "step toUrl (LoadSettles r) w =
     (if \<not> loadPending w then Some w
      else (let w0 = w\<lparr>loadPending := False\<rparr>
            in case r of
                 Session session \<Rightarrow>
                   (case restore toUrl session w0 of
                      None \<Rightarrow> Some w0
                    | Some w1 \<Rightarrow> Some (commit True w0 w1))
               | _ \<Rightarrow> Some w0))"
| "step toUrl (FilesChosen files) w =
     (case handleFiles_select files w of
        Batch next notice \<Rightarrow> Some (w\<lparr>inflight := inflight w @ [next]\<rparr>)
      | _ \<Rightarrow> Some w)"
| "step toUrl (FilesRead k) w =
     (if k < length (inflight w) then
        (let w0 = w\<lparr>inflight := take k (inflight w) @ drop (Suc k) (inflight w)\<rparr>
         in Some (commit True w0 (handleFiles_commit (inflight w ! k) w0)))
      else Some w)"
| "step toUrl (Remove ident) w = Some (commit True w (handleRemove ident w))"
| "step toUrl Start w = Some (commit False w (handleStart w))"
| "step toUrl Stop w = Some (commit False w (handleStop w))"
| "step toUrl SpaceKey w = Some (commit False w (handleKey w))"
| "step toUrl (IntervalChange v) w = Some (commit False w (handleIntervalChange v w))"
| "step toUrl (DragStart i) w = Some (if i < length (images w) then onDragStart i w else w)"
| "step toUrl (DragEnter i) w = Some (if i < length (images w) then onDragEnter i w else w)"
| "step toUrl DragEnd w =
     (case onDragEnd w of
        None \<Rightarrow> None
      | Some w1 \<Rightarrow>
          Some (commit (dragItem w \<noteq> None \<and> dragOverItem w \<noteq> None
                        \<and> dragItem w \<noteq> dragOverItem w) w w1))"

fun run :: "(string \<Rightarrow> string option) \<Rightarrow> event list \<Rightarrow> app \<Rightarrow> app option" where
  "run toUrl [] w = Some w"
| "run toUrl (ev # evs) w =
     (case step toUrl ev w of None \<Rightarrow> None | Some w' \<Rightarrow> run toUrl evs w')"

section \<open>Example inputs\<close>

text \<open>Concrete items, files, states and snapshots on which the theorems below are run.\<close>

definition example_item :: "string \<Rightarrow> ImageItem" where
  "example_item s = \<lparr>iid = s, iname = s @ ''.png'', url = ''blob:'' @ s, dataUrl = ''data:'' @ s\<rparr>"

definition example_file :: "string \<Rightarrow> File" where
  "example_file s = \<lparr>file_name = s @ ''.png'', file_dataUrl = Some (''data:'' @ s),
     file_objectUrl = ''blob:'' @ s, file_uuid = s\<rparr>"

definition example_app :: "ImageItem list \<Rightarrow> nat \<Rightarrow> app" where
  "example_app imgs idx =
     \<lparr>images = imgs, intervalMs = Num 100, isPlaying = False, currentIndex = idx,
      timeoutRef = None, rafRef = None, dragItem = None, dragOverItem = None,
      saveTimer = None, inflight = [],
      clock = 0, nextHandle = 0, timers = [], frames = [],
      loadPending = False, store = None, writes = []\<rparr>"

definition example_session :: "nat \<Rightarrow> SessionData" where
  "example_session n =
     \<lparr>s_intervalMs = Some (Num 5),
      s_images = replicate n \<lparr>sid = ''a'', sname = ''a.png'', sdataUrl = ''data:a''\<rparr>\<rparr>"

definition example_files :: "File list" where
  "example_files = [example_file ''a'', example_file ''b'', example_file ''c'']"

section \<open>Browser events and awaited callbacks\<close>

text \<open>
  The events that the browser raises by itself as time passes: the clock advances, a
  timer runs, an animation frame runs.
\<close>

fun browser :: "event \<Rightarrow> bool" where
  "browser (Elapse d) = True"
| "browser (TimerFires h) = True"
| "browser (FrameFires h) = True"
| "browser ev = False"





text \<open>
  The saves that are waiting in the timer table, each with its due time and the
  snapshot its callback will write.
\<close>

definition pending_saves :: "app \<Rightarrow> (real \<times> SessionData) list" where
  "pending_saves w =
     map (\<lambda>e. (t_due e, save_payload (t_callback e)))
         (filter (\<lambda>e. is_SaveCb (t_callback e)) (timers w))"

text \<open>
  A burst of save requests.  \<open>elapsed\<close> is the time a list of events takes.  Each
  element of a burst is a stretch of browser events that takes less than the debounce
  window, followed by an event that makes the save effect run again (the cleanup
  closes over a new timer handle).  \<open>burst\<close> runs them in order and has no result when
  the list is not such a burst.
\<close>

fun elapsed :: "event list \<Rightarrow> nat" where
  "elapsed [] = 0"
| "elapsed (Elapse d # evs) = d + elapsed evs"
| "elapsed (ev # evs) = elapsed evs"

fun burst :: "(string \<Rightarrow> string option) \<Rightarrow> (event list \<times> event) list \<Rightarrow> app \<Rightarrow> app option" where
  "burst toUrl [] w = Some w"
| "burst toUrl ((gap, req) # rest) w =
     (if list_all browser gap \<and> elapsed gap < SAVE_DEBOUNCE_MS then
        (case run toUrl gap w of
           None \<Rightarrow> None
         | Some w1 \<Rightarrow>
             (case step toUrl req w1 of
                None \<Rightarrow> None
              | Some w2 \<Rightarrow> if saveTimer w2 \<noteq> saveTimer w1 then burst toUrl rest w2 else None))
      else None)"

section \<open>Invariants of the running application\<close>

text \<open>
  \<open>in_range\<close>: a number between the two bounds, hence not \<^verbatim>\<open>NaN\<close>.  \<open>interval_ok\<close>
  is what the clamp guarantees of its result: in range, or \<^verbatim>\<open>NaN\<close>; with \<open>strict\<close> set,
  for a history into which no \<^verbatim>\<open>NaN\<close> was fed, in range.  \<open>nan_free\<close>: the event feeds
  no \<^verbatim>\<open>NaN\<close> into the application.
\<close>

definition in_range :: "number \<Rightarrow> bool" where
  "in_range v \<longleftrightarrow> num_le MIN_INTERVAL v \<and> num_le v MAX_INTERVAL"

definition interval_ok :: "bool \<Rightarrow> number \<Rightarrow> bool" where
  "interval_ok strict v \<longleftrightarrow> in_range v \<or> (\<not> strict \<and> v = NaN)"

fun nan_free :: "event \<Rightarrow> bool" where
  "nan_free (IntervalChange v) = (v \<noteq> NaN)"
| "nan_free (LoadSettles (Session session)) = (s_intervalMs session \<noteq> Some NaN)"
| "nan_free ev = True"

text \<open>
  Handles are allocated in increasing order, so pending handles are distinct and below
  the next one.
\<close>

definition handles_ok :: "app \<Rightarrow> bool" where
  "handles_ok w \<longleftrightarrow>
     (\<forall>e \<in> set (timers w). t_handle e < nextHandle w)
   \<and> (\<forall>e \<in> set (frames w). f_handle e < nextHandle w)
   \<and> distinct (map t_handle (timers w))
   \<and> distinct (map f_handle (frames w))"

text \<open>
  Every pending playback callback is the one its ref holds, and its closure agrees
  with the values \<open>playing\<close>, \<open>len\<close>, \<open>ci\<close>; for the current state these are
  \<^verbatim>\<open>isPlaying\<close>, \<^verbatim>\<open>images.length\<close> and \<^verbatim>\<open>clampedInterval\<close>.  \<open>quiet\<close>: no
  playback callback is pending.
\<close>

definition closures_ok :: "bool \<Rightarrow> nat \<Rightarrow> number \<Rightarrow> app \<Rightarrow> bool" where
  "closures_ok playing len ci w \<longleftrightarrow>
     (\<forall>e \<in> set (timers w). is_TickCb (t_callback e) \<longrightarrow>
        timeoutRef w = Some (t_handle e) \<and> playing
        \<and> tick_len (t_callback e) = len \<and> 0 < len
        \<and> tick_interval (t_callback e) = ci \<and> t_due e \<le> real (clock w) + timer_delay ci)
   \<and> (\<forall>e \<in> set (frames w).
        rafRef w = Some (f_handle e) \<and> step_playing (f_callback e) \<and> playing
        \<and> step_len (f_callback e) = len \<and> 0 < len
        \<and> step_interval (f_callback e) = ci \<and> step_start (f_callback e) \<le> real (clock w))"

definition playback_ok :: "app \<Rightarrow> bool" where
  "playback_ok w \<longleftrightarrow> closures_ok (isPlaying w) (length (images w)) (clampedInterval w) w"

definition quiet :: "app \<Rightarrow> bool" where
  "quiet w \<longleftrightarrow> (\<forall>e \<in> set (timers w). \<not> is_TickCb (t_callback e)) \<and> frames w = []"

text \<open>
  Every pending save is the one the cleanup of the save effect will cancel, is due no
  earlier than 400 ms after startup and carries an interval that is \<open>interval_ok\<close>;
  every logged write happened no earlier than that, and carried such an interval; the
  interval in memory is \<open>interval_ok\<close>.
\<close>

definition payload_ok :: "bool \<Rightarrow> SessionData \<Rightarrow> bool" where
  "payload_ok strict p \<longleftrightarrow>
     (case s_intervalMs p of None \<Rightarrow> False | Some v \<Rightarrow> interval_ok strict v)"

definition saves_ok :: "bool \<Rightarrow> app \<Rightarrow> bool" where
  "saves_ok strict w \<longleftrightarrow>
     (\<forall>e \<in> set (timers w). is_SaveCb (t_callback e) \<longrightarrow>
        saveTimer w = Some (t_handle e) \<and> real SAVE_DEBOUNCE_MS \<le> t_due e
        \<and> payload_ok strict (save_payload (t_callback e)))
   \<and> (\<forall>(t, p) \<in> set (writes w).
        SAVE_DEBOUNCE_MS \<le> t \<and> t \<le> clock w \<and> payload_ok strict p)
   \<and> interval_ok strict (intervalMs w)"

definition app_inv :: "bool \<Rightarrow> app \<Rightarrow> bool" where
  "app_inv strict w \<longleftrightarrow> handles_ok w \<and> playback_ok w \<and> saves_ok strict w"

text \<open>
  The part of \<open>saves_ok\<close> that the debounce rests on: every pending save is the
  one the cleanup of the save effect will cancel.
\<close>

definition debounce_ok :: "app \<Rightarrow> bool" where
  "debounce_ok w \<longleftrightarrow>
     (\<forall>e \<in> set (timers w). is_SaveCb (t_callback e) \<longrightarrow> saveTimer w = Some (t_handle e))"

text \<open>
  \<open>same_state\<close>: two states agree on everything but timers, frames, their refs and
  the handle counter.  \<open>same_runtime\<close>: two states agree on the browser side and on
  the timer refs.
\<close>

definition same_state :: "app \<Rightarrow> app \<Rightarrow> bool" where
  "same_state w w' \<longleftrightarrow>
     images w' = images w \<and> intervalMs w' = intervalMs w \<and> isPlaying w' = isPlaying w
   \<and> currentIndex w' = currentIndex w \<and> clock w' = clock w \<and> writes w' = writes w
   \<and> store w' = store w \<and> loadPending w' = loadPending w \<and> inflight w' = inflight w
   \<and> dragItem w' = dragItem w \<and> dragOverItem w' = dragOverItem w"

definition same_runtime :: "app \<Rightarrow> app \<Rightarrow> bool" where
  "same_runtime w w' \<longleftrightarrow>
     timers w' = timers w \<and> frames w' = frames w \<and> timeoutRef w' = timeoutRef w
   \<and> rafRef w' = rafRef w \<and> saveTimer w' = saveTimer w \<and> nextHandle w' = nextHandle w
   \<and> clock w' = clock w \<and> writes w' = writes w \<and> store w' = store w"

section \<open>Numbers and the clamp\<close>

lemma Math_simps [simp]:
  "Math_max (Num x) (Num y) = Num (max x y)"
  "Math_min (Num x) (Num y) = Num (min x y)"
  "Math_max NaN b = NaN" "Math_max a NaN = NaN"
  "Math_min NaN b = NaN" "Math_min a NaN = NaN"
  by (simp_all add: Math_max_def Math_min_def split: number.splits)

lemma num_le_simps [simp]:
  "num_le (Num x) (Num y) = (x \<le> y)"
  "num_le NaN b = False" "num_le a NaN = False"
  by (simp_all add: num_le_def split: number.splits)

lemma timer_delay_simps [simp]:
  "timer_delay (Num x) = max 0 x" "timer_delay NaN = 0"
  by (simp_all add: timer_delay_def)

lemma timer_delay_nonneg: "0 \<le> timer_delay v"
  by (cases v) simp_all


lemma in_range_Num: "in_range (Num x) \<longleftrightarrow> 16 \<le> x \<and> x \<le> 10000"
  by (simp add: in_range_def MIN_INTERVAL_def MAX_INTERVAL_def)

lemma in_range_NaN [simp]: "\<not> in_range NaN"
  by (simp add: in_range_def)

lemma clamp_Num:
  "Math_min (Math_max (Num x) MIN_INTERVAL) MAX_INTERVAL = Num (min (max x 16) 10000)"
  by (simp add: MIN_INTERVAL_def MAX_INTERVAL_def)

lemma clamp_NaN: "Math_min (Math_max NaN MIN_INTERVAL) MAX_INTERVAL = NaN"
  by simp

lemma clamp_in_range: "in_range (Math_min (Math_max (Num x) MIN_INTERVAL) MAX_INTERVAL)"
  by (simp add: clamp_Num in_range_Num)

lemma clamp_interval_ok:
  "(strict \<longrightarrow> v \<noteq> NaN) \<Longrightarrow> interval_ok strict (Math_min (Math_max v MIN_INTERVAL) MAX_INTERVAL)"
  by (cases v) (simp_all add: interval_ok_def clamp_in_range)

lemma clamp_of_ok:
  "interval_ok strict v \<Longrightarrow> interval_ok strict (Math_min (Math_max v MIN_INTERVAL) MAX_INTERVAL)"
  by (rule clamp_interval_ok) (auto simp: interval_ok_def)

section \<open>Lists\<close>

lemma those_map_Some:
  "those (map f xs) = Some ys \<Longrightarrow> length ys = length xs \<and> (\<forall>i < length xs. f (xs ! i) = Some (ys ! i))"
proof (induction xs arbitrary: ys)
  case Nil
  then show ?case by simp
next
  case (Cons x xs)
  then obtain y ys' where fx: "f x = Some y" and rest: "those (map f xs) = Some ys'" and ys: "ys = y # ys'"
    by (auto split: option.splits)
  from Cons.IH [OF rest] have "length ys' = length xs" and nth: "\<forall>i < length xs. f (xs ! i) = Some (ys' ! i)"
    by simp_all
  then show ?case using fx ys by (auto simp: nth_Cons split: nat.splits)
qed

lemma those_map_total:
  "(\<forall>x \<in> set xs. f x \<noteq> None) \<Longrightarrow> those (map f xs) = Some (map (\<lambda>x. the (f x)) xs)"
  by (induction xs) auto

lemma those_map_Some_id: "those (map Some xs) = Some xs"
  by (induction xs) auto

lemma reorder_in_range:
  assumes "i < length xs"
  shows "reorder i j xs = map Some (take j (take i xs @ drop (Suc i) xs) @ xs ! i # drop j (take i xs @ drop (Suc i) xs))"
proof -
  define r where "r = take i xs @ drop (Suc i) xs"
  have d: "drop i xs = xs ! i # drop (Suc i) xs"
    using assms by (simp add: Cons_nth_drop_Suc)
  have "splice_remove i (map Some xs) = ([Some (xs ! i)], map Some r)"
    by (simp add: splice_remove_def r_def drop_map take_map d)
  then have "reorder i j xs = take j (map Some r) @ Some (xs ! i) # drop j (map Some r)"
    by (simp add: reorder_def splice_insert_def)
  also have "\<dots> = map Some (take j r @ xs ! i # drop j r)"
    by (simp add: take_map drop_map)
  finally show ?thesis by (simp only: r_def)
qed

lemma mset_remove_insert:
  assumes "i < length xs"
  shows "mset (take j (take i xs @ drop (Suc i) xs) @ xs ! i # drop j (take i xs @ drop (Suc i) xs)) = mset xs"
proof -
  let ?r = "take i xs @ drop (Suc i) xs"
  have "mset (take j ?r @ xs ! i # drop j ?r) = mset (take j ?r @ drop j ?r) + {#xs ! i#}"
    by (simp del: take_append drop_append append_take_drop_id)
  also have "\<dots> = mset ?r + {#xs ! i#}" by (simp only: append_take_drop_id)
  also have "\<dots> = mset (take i xs @ xs ! i # drop (Suc i) xs)" by simp
  also have "\<dots> = mset xs" using assms by (simp only: id_take_nth_drop [symmetric])
  finally show ?thesis .
qed

lemma those_replicate_Some: "those (replicate n (Some x)) = Some (replicate n x)"
  by (induction n) auto


section \<open>The image collection\<close>

text \<open>
  Claim C2, as amended.  After \<^verbatim>\<open>handleRemove\<close> on a non-empty collection the index
  is unchanged when it still lies below the new length, and 0 otherwise; it is a valid
  index whenever entries remain; and when the entry it pointed to was the last entry
  and is removed, it is 0.  So a removal that leaves the index below the new length
  never changes it, whichever entry was removed.
\<close>

theorem handleRemove_currentIndex:
  assumes "images w \<noteq> []"
  shows "images (handleRemove ident w) = filter (\<lambda>img. iid img \<noteq> ident) (images w)
       \<and> currentIndex (handleRemove ident w) =
           (if currentIndex w < length (images (handleRemove ident w)) then currentIndex w else 0)
       \<and> (images (handleRemove ident w) \<noteq> [] \<longrightarrow>
            currentIndex (handleRemove ident w) < length (images (handleRemove ident w)))
       \<and> (currentIndex w = length (images w) - 1 \<and> iid (images w ! currentIndex w) = ident \<longrightarrow>
            currentIndex (handleRemove ident w) = 0)"
proof -
  let ?next = "filter (\<lambda>img. iid img \<noteq> ident) (images w)"
  have img: "images (handleRemove ident w) = ?next"
    by (simp add: handleRemove_def Let_def)
  have idx: "currentIndex (handleRemove ident w) = (if currentIndex w < length ?next then currentIndex w else 0)"
    by (auto simp: handleRemove_def Let_def)
  have last: "currentIndex (handleRemove ident w) = 0"
    if "currentIndex w = length (images w) - 1" and "iid (images w ! currentIndex w) = ident"
  proof -
    from assms that(1) have "currentIndex w < length (images w)" by (cases "images w") simp_all
    then have "images w ! currentIndex w \<in> set (images w)" by simp
    with that(2) have "length ?next < length (images w)"
      by (intro length_filter_less [where x = "images w ! currentIndex w"]) simp_all
    with that(1) have "\<not> currentIndex w < length ?next" by simp
    with idx show ?thesis by simp
  qed
  show ?thesis using img idx last by auto
qed

theorem handleRemove_currentIndex_witness:
  "currentIndex (handleRemove ''c''
      (example_app [example_item ''a'', example_item ''b'', example_item ''c''] 2)) = 0
   \<and> currentIndex (handleRemove ''a''
      (example_app [example_item ''a'', example_item ''b'', example_item ''c''] 1)) = 1"
  using handleRemove_currentIndex [of "example_app [example_item ''a'', example_item ''b'', example_item ''c''] 2" "''c''"]
        handleRemove_currentIndex [of "example_app [example_item ''a'', example_item ''b'', example_item ''c''] 1" "''a''"]
  by (simp add: example_app_def example_item_def)

text \<open>
  Claim C2 as stated fails twice on three entries \<open>a, b, c\<close>.  With the index on
  \<open>b\<close>, removing \<open>b\<close> leaves the index at 1, not 0.  With the index on \<open>c\<close>,
  removing \<open>a\<close> puts the index at 0, not at the new last position 1.
\<close>

theorem handleRemove_counterexample:
  "iid (images (example_app [example_item ''a'', example_item ''b'', example_item ''c''] 1)
          ! currentIndex (example_app [example_item ''a'', example_item ''b'', example_item ''c''] 1)) = ''b''
   \<and> currentIndex (handleRemove ''b''
        (example_app [example_item ''a'', example_item ''b'', example_item ''c''] 1)) = 1
   \<and> currentIndex (handleRemove ''a''
        (example_app [example_item ''a'', example_item ''b'', example_item ''c''] 2)) = 0
   \<and> length (images (handleRemove ''a''
        (example_app [example_item ''a'', example_item ''b'', example_item ''c''] 2))) - 1 = 1"
  by (simp add: handleRemove_def example_app_def example_item_def)

text \<open>
  Claim C3, as amended.  \<^verbatim>\<open>onDragEnd\<close> with no drag source, no drag target, or equal
  source and target indices (in range or not) leaves the collection and the index
  as they are.  There is no range check: a source \<open>i\<close> in range dragged to a target
  \<open>j\<close> at or past the end is taken out and appended at the end, and the index is
  reset to 0.
\<close>

theorem onDragEnd_noop:
  "(dragItem w = None \<or> dragOverItem w = None \<or> dragItem w = dragOverItem w \<longrightarrow>
      (\<exists>w'. onDragEnd w = Some w' \<and> images w' = images w \<and> currentIndex w' = currentIndex w))
   \<and> (dragItem w = Some i \<and> dragOverItem w = Some j
        \<and> i < length (images w) \<and> length (images w) \<le> j \<longrightarrow>
      (\<exists>w'. onDragEnd w = Some w'
          \<and> images w' = take i (images w) @ drop (Suc i) (images w) @ [images w ! i]
          \<and> currentIndex w' = 0))"
proof -
  have a: "\<exists>w'. onDragEnd w = Some w' \<and> images w' = images w \<and> currentIndex w' = currentIndex w"
    if "dragItem w = None \<or> dragOverItem w = None \<or> dragItem w = dragOverItem w"
    using that by (auto simp: onDragEnd_def Let_def)
  have b: "\<exists>w'. onDragEnd w = Some w'
          \<and> images w' = take i (images w) @ drop (Suc i) (images w) @ [images w ! i]
          \<and> currentIndex w' = 0"
    if h: "dragItem w = Some i" "dragOverItem w = Some j" "i < length (images w)"
          "length (images w) \<le> j"
  proof -
    define r where "r = take i (images w) @ drop (Suc i) (images w)"
    define nxt where "nxt = r @ [images w ! i]"
    have "length r = length (images w) - 1"
      using h(3) by (simp add: r_def)
    with h(4) have lr: "length r \<le> j" by simp
    have "reorder i j (images w) = map Some (take j r @ images w ! i # drop j r)"
      unfolding r_def using h(3) by (rule reorder_in_range)
    also have "take j r @ images w ! i # drop j r = nxt"
      using lr by (simp add: nxt_def)
    finally have re: "reorder i j (images w) = map Some nxt" .
    from h(3,4) have ne: "i \<noteq> j" by simp
    have res: "onDragEnd w =
        Some (w\<lparr>dragItem := None, dragOverItem := None, images := nxt, currentIndex := 0\<rparr>)"
      using h(1,2) ne by (simp add: onDragEnd_def Let_def re those_map_Some_id)
    let ?w' = "w\<lparr>dragItem := None, dragOverItem := None, images := nxt, currentIndex := 0\<rparr>"
    have "images ?w' = take i (images w) @ drop (Suc i) (images w) @ [images w ! i]"
      by (simp add: nxt_def r_def)
    moreover have "currentIndex ?w' = 0" by simp
    ultimately show ?thesis using res by blast
  qed
  show ?thesis using a b by blast
qed

theorem onDragEnd_noop_witness:
  "map_option images
     (onDragEnd ((example_app [example_item ''a'', example_item ''b''] 1)
                   \<lparr>dragItem := Some 7, dragOverItem := Some 7\<rparr>))
     = Some [example_item ''a'', example_item ''b'']
   \<and> map_option currentIndex
     (onDragEnd ((example_app [example_item ''a'', example_item ''b''] 1)
                   \<lparr>dragItem := Some 7, dragOverItem := Some 7\<rparr>))
     = Some 1
   \<and> map_option images
     (onDragEnd ((example_app [example_item ''a'', example_item ''b''] 1)
                   \<lparr>dragItem := Some 0, dragOverItem := Some 4\<rparr>))
     = Some [example_item ''b'', example_item ''a'']
   \<and> map_option currentIndex
     (onDragEnd ((example_app [example_item ''a'', example_item ''b''] 1)
                   \<lparr>dragItem := Some 0, dragOverItem := Some 4\<rparr>))
     = Some 0"
  using onDragEnd_noop [of "(example_app [example_item ''a'', example_item ''b''] 1)
            \<lparr>dragItem := Some 7, dragOverItem := Some 7\<rparr>" 7 7]
        onDragEnd_noop [of "(example_app [example_item ''a'', example_item ''b''] 1)
            \<lparr>dragItem := Some 0, dragOverItem := Some 4\<rparr>" 0 4]
  by (auto simp: example_app_def)

text \<open>
  Claim C3 as stated fails for an out-of-range target: on three entries with the
  index at 1, dragging entry 0 to position 5 moves it to the end and resets the index.
\<close>

theorem onDragEnd_out_of_range_counterexample:
  "map_option images
     (onDragEnd ((example_app [example_item ''a'', example_item ''b'', example_item ''c''] 1)
                   \<lparr>dragItem := Some 0, dragOverItem := Some 5\<rparr>))
     = Some [example_item ''b'', example_item ''c'', example_item ''a'']
   \<and> map_option currentIndex
     (onDragEnd ((example_app [example_item ''a'', example_item ''b'', example_item ''c''] 1)
                   \<lparr>dragItem := Some 0, dragOverItem := Some 5\<rparr>))
     = Some 0"
  by (simp add: onDragEnd_def reorder_def splice_remove_def splice_insert_def example_app_def Let_def)

text \<open>
  Claim C4.  For distinct in-range indices \<open>i\<close> and \<open>j\<close>, \<^verbatim>\<open>onDragEnd\<close> keeps the
  multiset of entries and the length, puts the dragged entry at position \<open>j\<close> with
  the others in their old order around it, and resets the index to 0.
\<close>

theorem onDragEnd_reorder:
  assumes "dragItem w = Some i" "dragOverItem w = Some j" "i \<noteq> j"
      and "i < length (images w)" "j < length (images w)"
  shows "\<exists>w'. onDragEnd w = Some w'
           \<and> mset (images w') = mset (images w)
           \<and> length (images w') = length (images w)
           \<and> images w' ! j = images w ! i
           \<and> images w' = take j (take i (images w) @ drop (Suc i) (images w))
                          @ images w ! i # drop j (take i (images w) @ drop (Suc i) (images w))
           \<and> currentIndex w' = 0"
proof -
  define nxt where
    "nxt = take j (take i (images w) @ drop (Suc i) (images w))
           @ images w ! i # drop j (take i (images w) @ drop (Suc i) (images w))"
  have r: "reorder i j (images w) = map Some nxt"
    unfolding nxt_def using assms(4) by (rule reorder_in_range)
  have res: "onDragEnd w = Some (w\<lparr>dragItem := None, dragOverItem := None, images := nxt, currentIndex := 0\<rparr>)"
    using assms(1-3) by (simp add: onDragEnd_def Let_def r those_map_Some_id)
  have m: "mset nxt = mset (images w)"
    unfolding nxt_def using assms(4) by (rule mset_remove_insert)
  then have l: "length nxt = length (images w)" by (rule mset_eq_length)
  have "length (take i (images w) @ drop (Suc i) (images w)) = length (images w) - 1"
    using assms(4) by simp
  with assms(4,5) have "j \<le> length (take i (images w) @ drop (Suc i) (images w))" by simp
  then have "length (take j (take i (images w) @ drop (Suc i) (images w))) = j"
    by (simp del: take_append)
  then have n: "nxt ! j = images w ! i"
    unfolding nxt_def by (metis nth_append_length)
  let ?w' = "w\<lparr>dragItem := None, dragOverItem := None, images := nxt, currentIndex := 0\<rparr>"
  have "mset (images ?w') = mset (images w)" using m by simp
  moreover have "length (images ?w') = length (images w)" using l by simp
  moreover have "images ?w' ! j = images w ! i" using n by simp
  moreover have "images ?w' = take j (take i (images w) @ drop (Suc i) (images w))
                          @ images w ! i # drop j (take i (images w) @ drop (Suc i) (images w))"
    unfolding nxt_def by simp
  moreover have "currentIndex ?w' = 0" by simp
  ultimately show ?thesis using res by blast
qed

theorem onDragEnd_reorder_witness:
  "\<exists>w'. onDragEnd ((example_app [example_item ''a'', example_item ''b'', example_item ''c''] 2)
            \<lparr>dragItem := Some 2, dragOverItem := Some 0\<rparr>) = Some w'
     \<and> images w' = [example_item ''c'', example_item ''a'', example_item ''b'']
     \<and> currentIndex w' = 0"
  using onDragEnd_reorder [of "(example_app [example_item ''a'', example_item ''b'', example_item ''c''] 2)
            \<lparr>dragItem := Some 2, dragOverItem := Some 0\<rparr>" 2 0]
  by (simp add: example_app_def) blast




section \<open>Restoring the session\<close>

text \<open>
  Claim C10.  A successful restore yields \<open>min 50 n\<close> entries for a snapshot of \<open>n\<close>
  entries, hence at most 50, and the \<open>i\<close>-th restored entry is the \<open>i\<close>-th persisted
  entry with its object URL.
\<close>

theorem restore_at_most_MAX_IMAGES:
  assumes "restore toUrl session w = Some w'"
  shows "length (images w') = min MAX_IMAGES (length (s_images session))
       \<and> length (images w') \<le> 50
       \<and> (\<forall>i < length (images w').
            iid (images w' ! i) = sid (s_images session ! i)
          \<and> iname (images w' ! i) = sname (s_images session ! i)
          \<and> dataUrl (images w' ! i) = sdataUrl (s_images session ! i)
          \<and> toUrl (sdataUrl (s_images session ! i)) = Some (url (images w' ! i)))"
proof -
  let ?sel = "take MAX_IMAGES (s_images session)"
  from assms obtain restored where
    th: "those (map (restoreItem toUrl) ?sel) = Some restored" and im: "images w' = restored"
    by (auto simp: restore_def split: option.splits)
  from those_map_Some [OF th]
  have len: "length restored = length ?sel"
    and nth: "\<And>i. i < length ?sel \<Longrightarrow> restoreItem toUrl (?sel ! i) = Some (restored ! i)"
    by simp_all
  have l1: "length (images w') = min MAX_IMAGES (length (s_images session))"
    using im len by (simp add: min.commute)
  then have l2: "length (images w') \<le> 50" by (simp add: MAX_IMAGES_def)
  have each: "iid (images w' ! i) = sid (s_images session ! i)
          \<and> iname (images w' ! i) = sname (s_images session ! i)
          \<and> dataUrl (images w' ! i) = sdataUrl (s_images session ! i)
          \<and> toUrl (sdataUrl (s_images session ! i)) = Some (url (images w' ! i))"
    if "i < length (images w')" for i
  proof -
    from that im len have i: "i < length ?sel" by simp
    then have "?sel ! i = s_images session ! i" by simp
    with nth [OF i] have "restoreItem toUrl (s_images session ! i) = Some (images w' ! i)"
      using im by simp
    then obtain u where u: "toUrl (sdataUrl (s_images session ! i)) = Some u"
      and eq: "images w' ! i = \<lparr>iid = sid (s_images session ! i), iname = sname (s_images session ! i),
                                 url = u, dataUrl = sdataUrl (s_images session ! i)\<rparr>"
      by (auto simp: restoreItem_def split: option.splits)
    show ?thesis by (simp add: eq u)
  qed
  show ?thesis using l1 l2 each by blast
qed

theorem restore_at_most_MAX_IMAGES_witness:
  "restore (\<lambda>d. Some (''blob:'' @ d)) (example_session 60) (example_app [] 0)
     = Some ((example_app [] 0)\<lparr>images := replicate 50 \<lparr>iid = ''a'', iname = ''a.png'', url = ''blob:data:a'', dataUrl = ''data:a''\<rparr>, intervalMs := Num 16\<rparr>)
   \<and> length (images ((example_app [] 0)\<lparr>images := replicate 50 \<lparr>iid = ''a'', iname = ''a.png'', url = ''blob:data:a'', dataUrl = ''data:a''\<rparr>, intervalMs := Num 16\<rparr>)) \<le> 50"
proof -
  have r: "restore (\<lambda>d. Some (''blob:'' @ d)) (example_session 60) (example_app [] 0)
     = Some ((example_app [] 0)\<lparr>images := replicate 50 \<lparr>iid = ''a'', iname = ''a.png'', url = ''blob:data:a'', dataUrl = ''data:a''\<rparr>, intervalMs := Num 16\<rparr>)"
    by (simp add: restore_def example_session_def MAX_IMAGES_def restoreItem_def
          those_replicate_Some MIN_INTERVAL_def MAX_INTERVAL_def)
  from restore_at_most_MAX_IMAGES [OF r] r show ?thesis by blast
qed

section \<open>Effects and rendering in closed form\<close>

lemma same_state_refl: "same_state w w"
  by (simp add: same_state_def)

lemma same_state_trans: "same_state a b \<Longrightarrow> same_state b c \<Longrightarrow> same_state a c"
  by (simp add: same_state_def)

lemma clearTimers_eq:
  "clearTimers w =
     w\<lparr>timers := filter (\<lambda>e. Some (t_handle e) \<noteq> timeoutRef w) (timers w),
       frames := filter (\<lambda>e. Some (f_handle e) \<noteq> rafRef w) (frames w),
       timeoutRef := None, rafRef := None\<rparr>"
  by (cases "timeoutRef w"; cases "rafRef w")
     (simp_all add: clearTimers_def clearTimeout_def cancelAnimationFrame_def)

lemma save_cleanup_eq:
  "save_cleanup w = w\<lparr>timers := filter (\<lambda>e. Some (t_handle e) \<noteq> saveTimer w) (timers w)\<rparr>"
  by (cases "saveTimer w") (simp_all add: save_cleanup_def clearTimeout_def)

lemma save_effect_eq:
  "save_effect w =
     w\<lparr>nextHandle := Suc (nextHandle w),
       timers := timers w @ [\<lparr>t_handle = nextHandle w,
                              t_due = real (clock w) + real SAVE_DEBOUNCE_MS,
                              t_callback = SaveCb (payload w)\<rparr>],
       saveTimer := Some (nextHandle w)\<rparr>"
  by (simp add: save_effect_def setTimeout_def)

lemma playback_effect_eq:
  "playback_effect w =
     (if \<not> isPlaying w \<or> images w = [] then clearTimers w
      else if num_le (clampedInterval w) (Num 32) then
        w\<lparr>nextHandle := Suc (nextHandle w),
          frames := frames w @ [\<lparr>f_handle = nextHandle w,
              f_callback = StepCb True (length (images w)) (clampedInterval w) (real (clock w))\<rparr>],
          rafRef := Some (nextHandle w)\<rparr>
      else
        w\<lparr>nextHandle := Suc (nextHandle w),
          timers := timers w @ [\<lparr>t_handle = nextHandle w,
              t_due = real (clock w) + timer_delay (clampedInterval w),
              t_callback = TickCb (length (images w)) (clampedInterval w)\<rparr>],
          timeoutRef := Some (nextHandle w)\<rparr>)"
  by (simp add: playback_effect_def setTimeout_def requestAnimationFrame_def Let_def)

lemma same_state_prims:
  "same_state w (clearTimers w)"
  "same_state w (save_cleanup w)"
  "same_state w (save_effect w)"
  "same_state w (playback_effect w)"
  by (simp_all add: same_state_def clearTimers_eq save_cleanup_eq save_effect_eq playback_effect_eq)

lemma same_state_commit: "same_state new (commit t old new)"
  unfolding commit_def Let_def
  by (intro same_state_refl same_state_prims
        same_state_trans [OF _ same_state_prims(1)] same_state_trans [OF _ same_state_prims(2)]
        same_state_trans [OF _ same_state_prims(3)] same_state_trans [OF _ same_state_prims(4)]
      | simp only: if_split [where P = "same_state new"] | rule conjI impI)+

lemma clampedInterval_upd [simp]:
  "clampedInterval (w\<lparr>timers := a\<rparr>) = clampedInterval w"
  "clampedInterval (w\<lparr>frames := b\<rparr>) = clampedInterval w"
  "clampedInterval (w\<lparr>timeoutRef := c\<rparr>) = clampedInterval w"
  "clampedInterval (w\<lparr>rafRef := d\<rparr>) = clampedInterval w"
  "clampedInterval (w\<lparr>nextHandle := e\<rparr>) = clampedInterval w"
  "clampedInterval (w\<lparr>saveTimer := f\<rparr>) = clampedInterval w"
  "clampedInterval (w\<lparr>clock := g\<rparr>) = clampedInterval w"
  "clampedInterval (w\<lparr>images := h\<rparr>) = clampedInterval w"
  "clampedInterval (w\<lparr>isPlaying := i\<rparr>) = clampedInterval w"
  "clampedInterval (w\<lparr>currentIndex := j\<rparr>) = clampedInterval w"
  "clampedInterval (w\<lparr>dragItem := k\<rparr>) = clampedInterval w"
  "clampedInterval (w\<lparr>dragOverItem := l\<rparr>) = clampedInterval w"
  "clampedInterval (w\<lparr>inflight := m\<rparr>) = clampedInterval w"
  "clampedInterval (w\<lparr>loadPending := n\<rparr>) = clampedInterval w"
  "clampedInterval (w\<lparr>store := p\<rparr>) = clampedInterval w"
  "clampedInterval (w\<lparr>writes := q\<rparr>) = clampedInterval w"
  by (simp_all add: clampedInterval_def)

lemma payload_upd [simp]:
  "payload (w\<lparr>timers := a\<rparr>) = payload w"
  "payload (w\<lparr>frames := b\<rparr>) = payload w"
  "payload (w\<lparr>timeoutRef := c\<rparr>) = payload w"
  "payload (w\<lparr>rafRef := d\<rparr>) = payload w"
  "payload (w\<lparr>nextHandle := e\<rparr>) = payload w"
  "payload (w\<lparr>saveTimer := f\<rparr>) = payload w"
  "payload (w\<lparr>clock := g\<rparr>) = payload w"
  "payload (w\<lparr>isPlaying := i\<rparr>) = payload w"
  "payload (w\<lparr>currentIndex := j\<rparr>) = payload w"
  "payload (w\<lparr>dragItem := k\<rparr>) = payload w"
  "payload (w\<lparr>dragOverItem := l\<rparr>) = payload w"
  "payload (w\<lparr>inflight := m\<rparr>) = payload w"
  "payload (w\<lparr>loadPending := n\<rparr>) = payload w"
  "payload (w\<lparr>store := p\<rparr>) = payload w"
  "payload (w\<lparr>writes := q\<rparr>) = payload w"
  by (simp_all add: payload_def)

lemma clampedInterval_same: "same_state w w' \<Longrightarrow> clampedInterval w' = clampedInterval w"
  by (simp add: same_state_def clampedInterval_def)

lemma clampedInterval_prims [simp]:
  "clampedInterval (clearTimers w) = clampedInterval w"
  "clampedInterval (save_cleanup w) = clampedInterval w"
  "clampedInterval (save_effect w) = clampedInterval w"
  "clampedInterval (playback_effect w) = clampedInterval w"
  by (simp_all add: clampedInterval_same same_state_prims)

lemma clampedInterval_ok:
  "interval_ok strict (intervalMs w) \<Longrightarrow> interval_ok strict (clampedInterval w)"
  unfolding clampedInterval_def by (rule clamp_of_ok)

lemma payload_ok_payload:
  "interval_ok strict (intervalMs w) \<Longrightarrow> payload_ok strict (payload w)"
  by (simp add: payload_ok_def payload_def clampedInterval_ok)

lemma commit_cases:
  "commit t old new =
     (if isPlaying old \<noteq> isPlaying new \<or> length (images old) \<noteq> length (images new)
         \<or> clampedInterval old \<noteq> clampedInterval new
      then (if t \<or> clampedInterval old \<noteq> clampedInterval new
            then playback_effect (save_effect (clearTimers (save_cleanup new)))
            else playback_effect (clearTimers new))
      else (if t then save_effect (save_cleanup new) else new))"
  by (simp add: commit_def Let_def)

lemma tick_result:
  assumes "0 < l"
  shows "tick l c w =
     Some (w\<lparr>currentIndex := (currentIndex w + 1) mod l,
             nextHandle := Suc (nextHandle w),
             timers := timers w @ [\<lparr>t_handle = nextHandle w,
                                    t_due = real (clock w) + timer_delay c,
                                    t_callback = TickCb l c\<rparr>],
             timeoutRef := Some (nextHandle w)\<rparr>)"
  using assms by (simp add: tick_def setTimeout_def)

lemma step_frame_result:
  assumes "0 < l"
  shows "step_frame now True l c start w =
     Some (w\<lparr>currentIndex := (if num_le c (Num (now - start))
                              then (currentIndex w + 1) mod l else currentIndex w),
             nextHandle := Suc (nextHandle w),
             frames := frames w @ [\<lparr>f_handle = nextHandle w,
                 f_callback = StepCb True l c
                   (if num_le c (Num (now - start)) then now else start)\<rparr>],
             rafRef := Some (nextHandle w)\<rparr>)"
  using assms by (simp add: step_frame_def requestAnimationFrame_def)

lemma find_SomeD: "find P xs = Some x \<Longrightarrow> x \<in> set xs \<and> P x"
  by (induction xs) (auto split: if_splits)

lemma find_distinct:
  "distinct (map f xs) \<Longrightarrow> x \<in> set xs \<Longrightarrow> find (\<lambda>y. f y = f x) xs = Some x"
  by (induction xs) (auto simp: image_iff)

lemma run_append:
  "run toUrl (as @ bs) w = (case run toUrl as w of None \<Rightarrow> None | Some w1 \<Rightarrow> run toUrl bs w1)"
  by (induction as arbitrary: w) (auto split: option.splits)

lemmas eval_defs =
  example_files_def example_file_def example_session_def example_item_def
  mount_def handleFiles_select_def toItem_def MAX_IMAGES_def MIN_INTERVAL_def MAX_INTERVAL_def
  SAVE_DEBOUNCE_MS_def commit_def Let_def handleFiles_commit_def handleIntervalChange_def
  handleStart_def handleStop_def handleRemove_def handleKey_def clampedInterval_def
  Math_max_def Math_min_def num_le_def timer_delay_def
  save_effect_def save_cleanup_def playback_effect_def clearTimers_def
  setTimeout_def clearTimeout_def requestAnimationFrame_def cancelAnimationFrame_def
  timer_fires_def frame_fires_def tick_def step_frame_def payload_def saveSession_def
  restore_def restoreItem_def

section \<open>The invariants hold in every reachable state\<close>

subsection \<open>Handles\<close>

lemma handles_ok_clearTimers: "handles_ok w \<Longrightarrow> handles_ok (clearTimers w)"
  by (simp add: handles_ok_def clearTimers_eq distinct_map_filter)

lemma handles_ok_save_cleanup: "handles_ok w \<Longrightarrow> handles_ok (save_cleanup w)"
  by (simp add: handles_ok_def save_cleanup_eq distinct_map_filter)

lemma handles_ok_save_effect: "handles_ok w \<Longrightarrow> handles_ok (save_effect w)"
  by (auto simp: handles_ok_def save_effect_eq less_Suc_eq)

lemma handles_ok_playback_effect: "handles_ok w \<Longrightarrow> handles_ok (playback_effect w)"
  by (auto simp: handles_ok_def playback_effect_eq clearTimers_eq distinct_map_filter less_Suc_eq)

lemma handles_ok_commit: "handles_ok new \<Longrightarrow> handles_ok (commit t old new)"
  by (simp add: commit_def Let_def handles_ok_clearTimers handles_ok_save_cleanup
        handles_ok_save_effect handles_ok_playback_effect)

subsection \<open>Playback closures\<close>

lemma closures_ok_clearTimers: "closures_ok p l c w \<Longrightarrow> quiet (clearTimers w)"
  by (auto simp: closures_ok_def quiet_def clearTimers_eq filter_empty_conv)

lemma quiet_closures_ok: "quiet w \<Longrightarrow> closures_ok p l c w"
  by (simp add: closures_ok_def quiet_def)

lemma closures_ok_save_cleanup: "closures_ok p l c w \<Longrightarrow> closures_ok p l c (save_cleanup w)"
  by (auto simp: closures_ok_def save_cleanup_eq)

lemma closures_ok_save_effect: "closures_ok p l c w \<Longrightarrow> closures_ok p l c (save_effect w)"
  by (auto simp: closures_ok_def save_effect_eq)

lemma quiet_save_cleanup: "quiet w \<Longrightarrow> quiet (save_cleanup w)"
  by (simp add: quiet_def save_cleanup_eq)

lemma quiet_save_effect: "quiet w \<Longrightarrow> quiet (save_effect w)"
  by (simp add: quiet_def save_effect_eq)

lemma quiet_clearTimers: "quiet w \<Longrightarrow> quiet (clearTimers w)"
  by (simp add: quiet_def clearTimers_eq)

lemma playback_ok_playback_effect: "quiet w \<Longrightarrow> playback_ok (playback_effect w)"
  using timer_delay_nonneg [of "clampedInterval w"]
  by (auto simp: playback_ok_def closures_ok_def quiet_def playback_effect_eq clearTimers_eq)

lemma quiet_playback_effect_stopped:
  "quiet w \<Longrightarrow> \<not> isPlaying w \<or> images w = [] \<Longrightarrow> quiet (playback_effect w)"
  by (auto simp: playback_effect_eq quiet_clearTimers)

lemma playback_ok_commit:
  assumes "closures_ok (isPlaying old) (length (images old)) (clampedInterval old) new"
  shows "playback_ok (commit t old new)"
proof -
  have q1: "quiet (clearTimers (save_cleanup new))"
    using assms by (intro closures_ok_clearTimers closures_ok_save_cleanup)
  have q2: "quiet (clearTimers new)"
    using assms by (rule closures_ok_clearTimers)
  have a: "playback_ok (playback_effect (save_effect (clearTimers (save_cleanup new))))"
    using q1 by (intro playback_ok_playback_effect quiet_save_effect)
  have b: "playback_ok (playback_effect (clearTimers new))"
    using q2 by (rule playback_ok_playback_effect)
  have c: "playback_ok (save_effect (save_cleanup new))"
    if "isPlaying old = isPlaying new" "length (images old) = length (images new)"
       "clampedInterval old = clampedInterval new"
  proof -
    have "closures_ok (isPlaying old) (length (images old)) (clampedInterval old)
            (save_effect (save_cleanup new))"
      using assms by (intro closures_ok_save_effect closures_ok_save_cleanup)
    then show ?thesis
      using that by (simp add: playback_ok_def save_effect_eq save_cleanup_eq)
  qed
  have d: "playback_ok new"
    if "isPlaying old = isPlaying new" "length (images old) = length (images new)"
       "clampedInterval old = clampedInterval new"
    using assms that by (simp add: playback_ok_def)
  show ?thesis
    unfolding commit_cases using a b c d by simp
qed

lemma quiet_commit:
  assumes "quiet new" "\<not> isPlaying new \<or> images new = []"
  shows "quiet (commit t old new)"
proof -
  have a: "quiet (playback_effect (save_effect (clearTimers (save_cleanup new))))"
    using assms
    by (intro quiet_playback_effect_stopped quiet_save_effect quiet_clearTimers quiet_save_cleanup)
       (simp_all add: save_effect_eq clearTimers_eq save_cleanup_eq)
  have b: "quiet (playback_effect (clearTimers new))"
    using assms
    by (intro quiet_playback_effect_stopped quiet_clearTimers) (simp_all add: clearTimers_eq)
  have c: "quiet (save_effect (save_cleanup new))"
    using assms(1) by (intro quiet_save_effect quiet_save_cleanup)
  show ?thesis
    unfolding commit_cases using a b c assms(1) by simp
qed

subsection \<open>Pending and performed saves\<close>

lemma saves_ok_clearTimers: "saves_ok strict w \<Longrightarrow> saves_ok strict (clearTimers w)"
  by (auto simp: saves_ok_def clearTimers_eq)

lemma saves_ok_save_effect_cleanup: "saves_ok strict w \<Longrightarrow> saves_ok strict (save_effect (save_cleanup w))"
  by (auto simp: saves_ok_def save_effect_eq save_cleanup_eq payload_ok_payload)

lemma saves_ok_save_effect_clear_cleanup:
  "saves_ok strict w \<Longrightarrow> saves_ok strict (save_effect (clearTimers (save_cleanup w)))"
  by (auto simp: saves_ok_def save_effect_eq save_cleanup_eq clearTimers_eq payload_ok_payload)

lemma saves_ok_playback_effect: "saves_ok strict w \<Longrightarrow> saves_ok strict (playback_effect w)"
  by (auto simp: saves_ok_def playback_effect_eq clearTimers_eq)

lemma saves_ok_commit: "saves_ok strict new \<Longrightarrow> saves_ok strict (commit t old new)"
  unfolding commit_cases
  by (simp add: saves_ok_clearTimers saves_ok_save_effect_cleanup
        saves_ok_save_effect_clear_cleanup saves_ok_playback_effect)

subsection \<open>Handlers, callbacks, events\<close>

lemma inv_commit:
  assumes "handles_ok new" "saves_ok strict new"
      and "closures_ok (isPlaying old) (length (images old)) (clampedInterval old) new"
  shows "app_inv strict (commit t old new)"
  using assms by (simp add: app_inv_def handles_ok_commit saves_ok_commit playback_ok_commit)

lemma inv_commit_handler:
  assumes "app_inv strict w" "same_runtime w new" "interval_ok strict (intervalMs new)"
  shows "app_inv strict (commit t w new)"
proof (rule inv_commit)
  show "handles_ok new" using assms(1,2) by (simp add: app_inv_def handles_ok_def same_runtime_def)
  show "saves_ok strict new" using assms by (simp add: app_inv_def saves_ok_def same_runtime_def)
  show "closures_ok (isPlaying w) (length (images w)) (clampedInterval w) new"
    using assms(1,2) unfolding app_inv_def playback_ok_def closures_ok_def same_runtime_def
    by fastforce
qed

lemma same_runtime_handlers:
  "same_runtime w (handleRemove ident w)"
  "same_runtime w (handleStart w)"
  "same_runtime w (handleIntervalChange v w)"
  "same_runtime w (handleFiles_commit next w)"
  "same_runtime w (onDragStart i w)"
  "same_runtime w (onDragEnter i w)"
  by (simp_all add: same_runtime_def handleRemove_def handleStart_def handleIntervalChange_def
        handleFiles_commit_def onDragStart_def onDragEnter_def Let_def)

lemma intervalMs_handlers:
  "intervalMs (handleRemove ident w) = intervalMs w"
  "intervalMs (handleStart w) = intervalMs w"
  "intervalMs (handleFiles_commit next w) = intervalMs w"
  by (simp_all add: handleRemove_def handleStart_def handleFiles_commit_def Let_def)

lemma interval_ok_handleIntervalChange:
  "(strict \<longrightarrow> v \<noteq> NaN) \<Longrightarrow> interval_ok strict (intervalMs (handleIntervalChange v w))"
  by (simp add: handleIntervalChange_def clamp_interval_ok)

lemma inv_same_runtime:
  assumes "app_inv strict w" "same_runtime w w'" "same_state w w'"
  shows "app_inv strict w'"
proof -
  have c: "clampedInterval w' = clampedInterval w"
    using assms(3) by (rule clampedInterval_same)
  have "handles_ok w'"
    using assms(1,2) by (simp add: app_inv_def handles_ok_def same_runtime_def)
  moreover have "saves_ok strict w'"
    using assms by (simp add: app_inv_def saves_ok_def same_runtime_def same_state_def)
  moreover have "playback_ok w'"
    using assms c unfolding app_inv_def playback_ok_def closures_ok_def same_runtime_def same_state_def
    by fastforce
  ultimately show ?thesis by (simp add: app_inv_def)
qed

lemma inv_handleStop_commit:
  assumes "app_inv strict w"
  shows "app_inv strict (commit t w (handleStop w))"
proof (rule inv_commit)
  have eq: "handleStop w = (clearTimers w)\<lparr>isPlaying := False\<rparr>"
    by (simp add: handleStop_def clearTimers_eq)
  show "handles_ok (handleStop w)"
    using assms handles_ok_clearTimers [of w] by (simp add: eq app_inv_def handles_ok_def)
  show "saves_ok strict (handleStop w)"
    using assms saves_ok_clearTimers [of strict w] by (simp add: eq app_inv_def saves_ok_def)
  have "quiet (clearTimers w)"
    using assms closures_ok_clearTimers by (auto simp: app_inv_def playback_ok_def)
  then have "quiet (handleStop w)" by (simp add: eq quiet_def)
  then show "closures_ok (isPlaying w) (length (images w)) (clampedInterval w) (handleStop w)"
    by (rule quiet_closures_ok)
qed

lemma inv_mount: "app_inv strict (mount st)"
  by (simp add: mount_def app_inv_def handles_ok_def playback_ok_def closures_ok_def saves_ok_def
        save_effect_eq playback_effect_eq clearTimers_eq payload_ok_payload
        interval_ok_def in_range_Num)

lemma inv_elapse: "app_inv strict w \<Longrightarrow> app_inv strict (w\<lparr>clock := clock w + d\<rparr>)"
  unfolding app_inv_def saves_ok_def playback_ok_def closures_ok_def handles_ok_def
  by (simp; fastforce)

lemma inv_fire_save:
  assumes "app_inv strict w" "e \<in> set (timers w)" "t_callback e = SaveCb p" "t_due e \<le> real (clock w)"
  shows "app_inv strict (saveSession p (w\<lparr>timers := filter (\<lambda>x. t_handle x \<noteq> h) (timers w)\<rparr>))"
proof -
  from assms have e: "real SAVE_DEBOUNCE_MS \<le> t_due e" "payload_ok strict p"
    by (auto simp: app_inv_def saves_ok_def)
  with assms(4) have "SAVE_DEBOUNCE_MS \<le> clock w" by simp
  with e(2) assms(1) show ?thesis
    unfolding app_inv_def saveSession_def saves_ok_def playback_ok_def closures_ok_def handles_ok_def
    by (simp add: distinct_map_filter; fastforce)
qed

lemma inv_fire_tick:
  assumes "app_inv strict w" "e \<in> set (timers w)" "t_callback e = TickCb l c"
  shows "\<exists>w'. tick l c (w\<lparr>timers := filter (\<lambda>x. t_handle x \<noteq> t_handle e) (timers w)\<rparr>) = Some w'
            \<and> app_inv strict w' \<and> currentIndex w' = (currentIndex w + 1) mod length (images w)
            \<and> same_state (w\<lparr>currentIndex := currentIndex w'\<rparr>) w'"
proof -
  from assms have cl: "timeoutRef w = Some (t_handle e)" "isPlaying w" "l = length (images w)"
    "0 < l" "c = clampedInterval w"
    by (auto simp: app_inv_def playback_ok_def closures_ok_def)
  let ?w0 = "w\<lparr>timers := filter (\<lambda>x. t_handle x \<noteq> t_handle e) (timers w)\<rparr>"
  have noticks: "\<forall>x \<in> set (timers ?w0). \<not> is_TickCb (t_callback x)"
    using assms(1) cl(1) by (auto simp: app_inv_def playback_ok_def closures_ok_def)
  have c0: "0 \<le> timer_delay c" by (rule timer_delay_nonneg)
  let ?w' = "?w0\<lparr>currentIndex := (currentIndex w + 1) mod l,
             nextHandle := Suc (nextHandle w),
             timers := timers ?w0 @ [\<lparr>t_handle = nextHandle w,
                                    t_due = real (clock w) + timer_delay c,
                                    t_callback = TickCb l c\<rparr>],
             timeoutRef := Some (nextHandle w)\<rparr>"
  have r: "tick l c ?w0 = Some ?w'"
    using tick_result [OF cl(4), of c ?w0] by simp
  have h: "handles_ok ?w'"
    using assms(1) by (auto simp: app_inv_def handles_ok_def distinct_map_filter less_Suc_eq)
  have s: "saves_ok strict ?w'"
    using assms(1) by (auto simp: app_inv_def saves_ok_def)
  have p: "playback_ok ?w'"
    using assms(1) noticks cl c0 by (auto simp: app_inv_def playback_ok_def closures_ok_def)
  show ?thesis
    using r h s p cl(3) by (simp add: app_inv_def same_state_def)
qed

lemma inv_fire_frame:
  assumes "app_inv strict w" "e \<in> set (frames w)" "f_callback e = StepCb pl l c start"
  shows "\<exists>w'. step_frame (real (clock w)) pl l c start
                 (w\<lparr>frames := filter (\<lambda>x. f_handle x \<noteq> f_handle e) (frames w)\<rparr>) = Some w'
            \<and> app_inv strict w'
            \<and> currentIndex w' = (if num_le (clampedInterval w) (Num (real (clock w) - start))
                                  then (currentIndex w + 1) mod length (images w) else currentIndex w)
            \<and> same_state (w\<lparr>currentIndex := currentIndex w'\<rparr>) w'"
proof -
  from assms have cl: "rafRef w = Some (f_handle e)" "pl" "isPlaying w" "l = length (images w)"
    "0 < l" "c = clampedInterval w" "start \<le> real (clock w)"
    by (auto simp: app_inv_def playback_ok_def closures_ok_def)
  let ?w0 = "w\<lparr>frames := filter (\<lambda>x. f_handle x \<noteq> f_handle e) (frames w)\<rparr>"
  have noframes: "frames ?w0 = []"
    using assms(1) cl(1) by (auto simp: app_inv_def playback_ok_def closures_ok_def filter_empty_conv)
  let ?now = "real (clock w)"
  let ?w' = "?w0\<lparr>currentIndex := (if num_le c (Num (?now - start))
                                    then (currentIndex w + 1) mod l else currentIndex w),
             nextHandle := Suc (nextHandle w),
             frames := frames ?w0 @ [\<lparr>f_handle = nextHandle w,
                 f_callback = StepCb True l c
                   (if num_le c (Num (?now - start)) then ?now else start)\<rparr>],
             rafRef := Some (nextHandle w)\<rparr>"
  have r: "step_frame ?now pl l c start ?w0 = Some ?w'"
    using step_frame_result [OF cl(5), of ?now c start ?w0] cl(2) by simp
  have h: "handles_ok ?w'"
    using assms(1) by (auto simp: app_inv_def handles_ok_def distinct_map_filter less_Suc_eq)
  have s: "saves_ok strict ?w'"
    using assms(1) by (auto simp: app_inv_def saves_ok_def)
  have p: "playback_ok ?w'"
    using assms(1) cl unfolding noframes by (auto simp: app_inv_def playback_ok_def closures_ok_def noframes)
  show ?thesis
    using r h s p cl(4,6) by (simp add: app_inv_def same_state_def)
qed

lemma inv_upd [simp]:
  "app_inv strict (w\<lparr>loadPending := a\<rparr>) = app_inv strict w"
  "app_inv strict (w\<lparr>inflight := b\<rparr>) = app_inv strict w"
  "app_inv strict (w\<lparr>dragItem := c\<rparr>) = app_inv strict w"
  "app_inv strict (w\<lparr>dragOverItem := d\<rparr>) = app_inv strict w"
  "app_inv strict (w\<lparr>currentIndex := e\<rparr>) = app_inv strict w"
  by (simp_all add: app_inv_def handles_ok_def playback_ok_def closures_ok_def saves_ok_def)

lemma inv_timer_fires:
  assumes "app_inv strict w" "timer_fires h w = Some w'"
  shows "app_inv strict w'"
proof (cases "find (\<lambda>e. t_handle e = h) (timers w)")
  case None
  with assms show ?thesis by (simp add: timer_fires_def)
next
  case (Some e)
  then have e: "e \<in> set (timers w)" "t_handle e = h" by (auto dest: find_SomeD)
  show ?thesis
  proof (cases "t_due e \<le> real (clock w)")
    case False
    with Some assms show ?thesis by (simp add: timer_fires_def)
  next
    case True
    show ?thesis
    proof (cases "t_callback e")
      case (SaveCb p)
      with Some True assms(2) have "w' = saveSession p (w\<lparr>timers := filter (\<lambda>x. t_handle x \<noteq> h) (timers w)\<rparr>)"
        by (simp add: timer_fires_def)
      then show ?thesis using inv_fire_save [OF assms(1) e(1) SaveCb True] by simp
    next
      case (TickCb l c)
      with Some True assms(2) have "tick l c (w\<lparr>timers := filter (\<lambda>x. t_handle x \<noteq> t_handle e) (timers w)\<rparr>) = Some w'"
        by (simp add: timer_fires_def e(2))
      then show ?thesis using inv_fire_tick [OF assms(1) e(1) TickCb] by auto
    qed
  qed
qed

lemma inv_frame_fires:
  assumes "app_inv strict w" "frame_fires h w = Some w'"
  shows "app_inv strict w'"
proof (cases "find (\<lambda>e. f_handle e = h) (frames w)")
  case None
  with assms show ?thesis by (simp add: frame_fires_def)
next
  case (Some e)
  then have e: "e \<in> set (frames w)" "f_handle e = h" by (auto dest: find_SomeD)
  obtain pl l c start where cb: "f_callback e = StepCb pl l c start"
    by (cases "f_callback e")
  with Some assms(2) have "step_frame (real (clock w)) pl l c start
                 (w\<lparr>frames := filter (\<lambda>x. f_handle x \<noteq> f_handle e) (frames w)\<rparr>) = Some w'"
    by (simp add: frame_fires_def e(2))
  then show ?thesis using inv_fire_frame [OF assms(1) e(1) cb] by auto
qed

lemma restore_runtime:
  assumes "restore toUrl session w = Some w'"
  shows "same_runtime w w'"
  using assms by (auto simp: restore_def same_runtime_def split: option.splits)

lemma restore_intervalMs:
  assumes "restore toUrl session w = Some w'"
  shows "intervalMs w' = Math_min (Math_max (case s_intervalMs session of None \<Rightarrow> Num 100
                                               | Some v \<Rightarrow> v) MIN_INTERVAL) MAX_INTERVAL"
  using assms by (cases "those (map (restoreItem toUrl) (take MAX_IMAGES (s_images session)))")
                 (auto simp: restore_def)

lemma restore_interval_ok:
  assumes "restore toUrl session w = Some w'" "strict \<longrightarrow> s_intervalMs session \<noteq> Some NaN"
  shows "interval_ok strict (intervalMs w')"
  unfolding restore_intervalMs [OF assms(1)]
  using assms(2) by (intro clamp_interval_ok) (auto split: option.splits)

lemma onDragEnd_runtime:
  assumes "onDragEnd w = Some w'"
  shows "same_runtime w w'" "intervalMs w' = intervalMs w"
  using assms
  by (auto simp: onDragEnd_def same_runtime_def Let_def split: option.splits if_splits)

lemma inv_in_range: "app_inv strict w \<Longrightarrow> interval_ok strict (intervalMs w)"
  by (simp add: app_inv_def saves_ok_def)

lemma inv_handleKey_commit:
  assumes "app_inv strict w"
  shows "app_inv strict (commit t w (handleKey w))"
proof -
  have "app_inv strict (commit t w w)"
    using assms by (intro inv_commit_handler) (simp_all add: same_runtime_def inv_in_range [OF assms])
  moreover have "app_inv strict (commit t w (handleStart w))"
    using assms by (intro inv_commit_handler same_runtime_handlers)
                   (simp_all add: intervalMs_handlers inv_in_range [OF assms])
  moreover note inv_handleStop_commit [OF assms, of t]
  ultimately show ?thesis by (simp add: handleKey_def)
qed

lemma inv_step_gen:
  assumes "app_inv strict w" "step toUrl ev w = Some w'" "strict \<longrightarrow> nan_free ev"
  shows "app_inv strict w'"
proof (cases ev)
  case (Elapse d)
  with assms show ?thesis using inv_elapse by auto
next
  case (TimerFires h)
  with assms show ?thesis using inv_timer_fires by auto
next
  case (FrameFires h)
  with assms show ?thesis using inv_frame_fires by auto
next
  case (LoadSettles r)
  show ?thesis
  proof (cases "loadPending w")
    case False
    with LoadSettles assms show ?thesis by simp
  next
    case True
    let ?w0 = "w\<lparr>loadPending := False\<rparr>"
    have i0: "app_inv strict ?w0" using assms(1) by simp
    show ?thesis
    proof (cases r)
      case (Session session)
      show ?thesis
      proof (cases "restore toUrl session ?w0")
        case None
        with Session True LoadSettles assms(2) i0 show ?thesis by auto
      next
        case (Some w1)
        with Session True LoadSettles assms(2) have "w' = commit True ?w0 w1" by simp
        moreover have "interval_ok strict (intervalMs w1)"
          using assms(3) Session LoadSettles by (intro restore_interval_ok [OF Some]) simp
        ultimately show ?thesis
          using inv_commit_handler [OF i0 restore_runtime [OF Some]] by simp
      qed
    qed (use True LoadSettles assms(2) i0 in auto)
  qed
next
  case (FilesChosen files)
  with assms show ?thesis by (auto split: files_outcome.splits)
next
  case (FilesRead k)
  show ?thesis
  proof (cases "k < length (inflight w)")
    case True
    let ?w0 = "w\<lparr>inflight := take k (inflight w) @ drop (Suc k) (inflight w)\<rparr>"
    have "app_inv strict ?w0" using assms(1) by simp
    then have "app_inv strict (commit True ?w0 (handleFiles_commit (inflight w ! k) ?w0))"
      by (intro inv_commit_handler same_runtime_handlers)
         (simp_all add: intervalMs_handlers inv_in_range [OF assms(1)])
    with True FilesRead assms(2) show ?thesis by (simp add: Let_def)
  next
    case False
    with FilesRead assms show ?thesis by simp
  qed
next
  case (Remove ident)
  have "app_inv strict (commit True w (handleRemove ident w))"
    using assms(1) by (intro inv_commit_handler same_runtime_handlers)
                       (simp_all add: intervalMs_handlers inv_in_range [OF assms(1)])
  with Remove assms(2) show ?thesis by simp
next
  case Start
  have "app_inv strict (commit False w (handleStart w))"
    using assms(1) by (intro inv_commit_handler same_runtime_handlers)
                       (simp_all add: intervalMs_handlers inv_in_range [OF assms(1)])
  with Start assms(2) show ?thesis by simp
next
  case Stop
  with assms(2) inv_handleStop_commit [OF assms(1), of False] show ?thesis by simp
next
  case SpaceKey
  with assms(2) inv_handleKey_commit [OF assms(1), of False] show ?thesis by simp
next
  case (IntervalChange v)
  have "app_inv strict (commit False w (handleIntervalChange v w))"
    using assms(1,3) IntervalChange
    by (intro inv_commit_handler same_runtime_handlers interval_ok_handleIntervalChange) simp_all
  with IntervalChange assms(2) show ?thesis by simp
next
  case (DragStart i)
  with assms show ?thesis by (auto simp: onDragStart_def)
next
  case (DragEnter i)
  with assms show ?thesis by (auto simp: onDragEnter_def)
next
  case DragEnd
  then obtain w1 where w1: "onDragEnd w = Some w1"
    and w': "w' = commit (dragItem w \<noteq> None \<and> dragOverItem w \<noteq> None \<and> dragItem w \<noteq> dragOverItem w) w w1"
    using assms(2) by (auto split: option.splits)
  from onDragEnd_runtime [OF w1] assms(1) show ?thesis
    unfolding w' by (intro inv_commit_handler) (simp_all add: inv_in_range [OF assms(1)])
qed

lemma inv_run_gen:
  assumes "app_inv strict w" "run toUrl evs w = Some w'" "strict \<longrightarrow> list_all nan_free evs"
  shows "app_inv strict w'"
  using assms
proof (induction evs arbitrary: w)
  case Nil
  then show ?case by simp
next
  case (Cons ev evs)
  then obtain w1 where w1: "step toUrl ev w = Some w1" "run toUrl evs w1 = Some w'"
    by (auto split: option.splits)
  from Cons.prems(3) have n: "strict \<longrightarrow> nan_free ev" "strict \<longrightarrow> list_all nan_free evs"
    by simp_all
  from inv_step_gen [OF Cons.prems(1) w1(1) n(1)] have "app_inv strict w1" .
  then show ?case using w1(2) n(2) by (rule Cons.IH)
qed

lemma inv_step:
  assumes "app_inv False w" "step toUrl ev w = Some w'"
  shows "app_inv False w'"
  using assms by (rule inv_step_gen) simp

lemma inv_run:
  assumes "app_inv False w" "run toUrl evs w = Some w'"
  shows "app_inv False w'"
  using assms by (rule inv_run_gen) simp

lemma inv_reachable: "run toUrl evs (mount st) = Some w \<Longrightarrow> app_inv False w"
  using inv_mount inv_run by blast

lemma inv_reachable_strict:
  "run toUrl evs (mount st) = Some w \<Longrightarrow> list_all nan_free evs \<Longrightarrow> app_inv True w"
  using inv_mount [of True st] by (rule inv_run_gen) simp_all

section \<open>Session persistence\<close>

lemma step_store:
  assumes "step toUrl ev w = Some w'"
  shows "(writes w' = writes w \<and> store w' = store w)
       \<or> (\<exists>p. writes w' = writes w @ [(clock w, p)] \<and> store w' = Some p)"
proof -
  have cm: "writes (commit t old new) = writes new \<and> store (commit t old new) = store new"
    for t old new
    using same_state_commit [of new t old] by (simp add: same_state_def)
  show ?thesis
  proof (cases ev)
    case (TimerFires h)
    with assms show ?thesis
      by (auto simp: timer_fires_def tick_def setTimeout_def saveSession_def Let_def
            split: option.splits if_splits timer_callback.splits)
  next
    case (FrameFires h)
    with assms show ?thesis
      by (auto simp: frame_fires_def step_frame_def requestAnimationFrame_def Let_def
            split: option.splits if_splits frame_callback.splits)
  next
    case (LoadSettles r)
    with assms show ?thesis
      by (auto simp: cm restore_def Let_def split: option.splits if_splits load_outcome.splits)
  next
    case (FilesChosen files)
    with assms show ?thesis by (auto split: files_outcome.splits)
  next
    case (FilesRead k)
    with assms show ?thesis by (auto simp: cm Let_def handleFiles_commit_def split: if_splits)
  next
    case DragEnd
    with assms show ?thesis
      by (auto simp: cm onDragEnd_def Let_def split: option.splits if_splits)
  qed (use assms in \<open>auto simp: cm handleRemove_def handleStart_def handleStop_def handleKey_def
          handleIntervalChange_def onDragStart_def onDragEnter_def clearTimers_eq Let_def\<close>)
qed

lemma store_run:
  assumes "run toUrl evs w = Some w'" "writes w = [] \<longrightarrow> store w = st"
  shows "writes w' = [] \<longrightarrow> store w' = st"
  using assms
proof (induction evs arbitrary: w)
  case Nil
  then show ?case by simp
next
  case (Cons ev evs)
  then obtain w1 where w1: "step toUrl ev w = Some w1" "run toUrl evs w1 = Some w'"
    by (auto split: option.splits)
  from step_store [OF w1(1)] Cons.prems(2) have "writes w1 = [] \<longrightarrow> store w1 = st" by auto
  with Cons.IH [OF w1(2)] show ?case by simp
qed

lemma store_mount: "writes (mount st) = [] \<and> store (mount st) = st"
  by (simp add: mount_def save_effect_eq playback_effect_eq clearTimers_eq)

text \<open>
  Claim C1, as amended.  In every reachable state each logged write happened at least
  400 ms after startup, and while the clock is below 400 ms nothing has been written
  and the stored snapshot is the one found at startup.  So a load that settles within
  400 ms precedes every write; the load is not awaited beyond that.
\<close>

theorem no_save_in_first_400ms:
  assumes "run toUrl evs (mount st) = Some w"
  shows "(\<forall>(t, p) \<in> set (writes w). 400 \<le> t \<and> t \<le> clock w)
       \<and> (clock w < 400 \<longrightarrow> writes w = [] \<and> store w = st)"
proof -
  from assms have "saves_ok False w" using inv_reachable by (auto simp: app_inv_def)
  then have a: "\<forall>(t, p) \<in> set (writes w). 400 \<le> t \<and> t \<le> clock w"
    by (auto simp: saves_ok_def SAVE_DEBOUNCE_MS_def)
  have b: "writes w = [] \<longrightarrow> store w = st"
    using store_run [OF assms] store_mount by simp
  have "writes w = []" if "clock w < 400"
  proof (cases "writes w")
    case (Cons x xs)
    with a that show ?thesis by (cases x) auto
  qed simp
  with a b show ?thesis by blast
qed

theorem no_save_in_first_400ms_witness:
  "\<exists>w. run Some [Elapse 150, LoadSettles (Session (example_session 1)), Elapse 249] (mount (Some (example_session 1))) = Some w
     \<and> clock w = 399 \<and> writes w = [] \<and> store w = Some (example_session 1) \<and> length (images w) = 1"
proof -
  have "\<exists>w. run Some [Elapse 150, LoadSettles (Session (example_session 1)), Elapse 249] (mount (Some (example_session 1))) = Some w
     \<and> clock w = 399 \<and> length (images w) = 1"
    by (simp add: eval_defs)
  then obtain w where r: "run Some [Elapse 150, LoadSettles (Session (example_session 1)), Elapse 249] (mount (Some (example_session 1))) = Some w"
    and w: "clock w = 399" "length (images w) = 1" by blast
  from no_save_in_first_400ms [OF r] w r show ?thesis by auto
qed

text \<open>
  Claim C1 as stated fails when the load is still outstanding 400 ms after startup:
  the save timer set by the first render runs, writes the initial empty state and
  replaces the stored snapshot, while \<^verbatim>\<open>loadSession\<close> has not settled.
\<close>

theorem save_before_load_counterexample:
  "map_option loadPending (run Some [Elapse 400, TimerFires 0] (mount (Some (example_session 1)))) = Some True
   \<and> map_option writes (run Some [Elapse 400, TimerFires 0] (mount (Some (example_session 1))))
       = Some [(400, \<lparr>s_intervalMs = Some (Num 100), s_images = []\<rparr>)]
   \<and> map_option store (run Some [Elapse 400, TimerFires 0] (mount (Some (example_session 1))))
       = Some (Some \<lparr>s_intervalMs = Some (Num 100), s_images = []\<rparr>)"
  by (simp add: eval_defs)

text \<open>
  The interval of a history into which no \<^verbatim>\<open>NaN\<close> is fed.  The clamp maps every real
  into [16, 10000]; a restore whose snapshot carries a real or no interval stores a
  value in that range; and in every state such a history reaches, the interval in
  memory, the interval of every snapshot written and of every snapshot waiting to be
  written lie in that range.  Of an arbitrary history the same holds with \<^verbatim>\<open>NaN\<close> as
  the one value outside the range.
\<close>

lemma handleIntervalChange_in_range:
  "in_range (intervalMs (handleIntervalChange (Num x) w))"
  using interval_ok_handleIntervalChange [of True "Num x" w] by (simp add: interval_ok_def)

lemma restore_in_range:
  assumes "restore toUrl session w = Some w'" "s_intervalMs session \<noteq> Some NaN"
  shows "in_range (intervalMs w')"
  using restore_interval_ok [OF assms(1), of True] assms(2) by (simp add: interval_ok_def)

lemma payload_interval:
  assumes "payload_ok strict p"
  shows "\<exists>v. s_intervalMs p = Some v \<and> interval_ok strict v"
  using assms by (cases "s_intervalMs p") (simp_all add: payload_ok_def)

lemma intervalMs_in_range:
  assumes "run toUrl evs (mount st) = Some w" "list_all nan_free evs"
  shows "in_range (intervalMs w)"
    and "\<forall>(t, p) \<in> set (writes w). \<exists>v. s_intervalMs p = Some v \<and> in_range v"
    and "\<forall>e \<in> set (timers w). is_SaveCb (t_callback e) \<longrightarrow>
           (\<exists>v. s_intervalMs (save_payload (t_callback e)) = Some v \<and> in_range v)"
proof -
  from assms have s: "saves_ok True w"
    using inv_reachable_strict by (auto simp: app_inv_def)
  show "in_range (intervalMs w)"
    using s by (simp add: saves_ok_def interval_ok_def)
  show "\<forall>(t, p) \<in> set (writes w). \<exists>v. s_intervalMs p = Some v \<and> in_range v"
    using s payload_interval [of True] by (auto simp: saves_ok_def interval_ok_def)
  show "\<forall>e \<in> set (timers w). is_SaveCb (t_callback e) \<longrightarrow>
           (\<exists>v. s_intervalMs (save_payload (t_callback e)) = Some v \<and> in_range v)"
    using s payload_interval [of True] by (auto simp: saves_ok_def interval_ok_def)
qed

lemma intervalMs_in_range_or_NaN:
  assumes "run toUrl evs (mount st) = Some w"
  shows "in_range (intervalMs w) \<or> intervalMs w = NaN"
    and "\<forall>(t, p) \<in> set (writes w). \<exists>v. s_intervalMs p = Some v \<and> (in_range v \<or> v = NaN)"
proof -
  from assms have s: "saves_ok False w"
    using inv_reachable by (auto simp: app_inv_def)
  show "in_range (intervalMs w) \<or> intervalMs w = NaN"
    using s by (simp add: saves_ok_def interval_ok_def)
  show "\<forall>(t, p) \<in> set (writes w). \<exists>v. s_intervalMs p = Some v \<and> (in_range v \<or> v = NaN)"
    using s payload_interval [of False] by (auto simp: saves_ok_def interval_ok_def)
qed

text \<open>
  Claim C6 does not hold of the code.  The restore reads the stored interval with
  \<^verbatim>\<open>session.intervalMs ?? 100\<close>, which replaces only an absent interval, and
  \<^verbatim>\<open>Math.max\<close> and \<^verbatim>\<open>Math.min\<close> pass \<^verbatim>\<open>NaN\<close> on; the number field of the interval, in
  contrast, replaces it (\<^verbatim>\<open>Number(e.target.value) || MIN_INTERVAL\<close>).  Evaluated on a
  stored snapshot whose interval is \<^verbatim>\<open>NaN\<close>: the restore puts \<^verbatim>\<open>NaN\<close> in memory,
  \<^verbatim>\<open>clampedInterval\<close> is \<^verbatim>\<open>NaN\<close>, and the save that follows 400 ms later writes
  \<^verbatim>\<open>NaN\<close> to the store; \<^verbatim>\<open>NaN\<close> is not between 16 and 10000.
\<close>

theorem restore_NaN_not_clamped:
  "map_option intervalMs
     (restore Some \<lparr>s_intervalMs = Some NaN, s_images = []\<rparr> (example_app [] 0)) = Some NaN
   \<and> map_option clampedInterval
     (restore Some \<lparr>s_intervalMs = Some NaN, s_images = []\<rparr> (example_app [] 0)) = Some NaN
   \<and> map_option intervalMs
       (run Some [LoadSettles (Session \<lparr>s_intervalMs = Some NaN, s_images = []\<rparr>),
                  Elapse 400, TimerFires 1]
            (mount (Some \<lparr>s_intervalMs = Some NaN, s_images = []\<rparr>))) = Some NaN
   \<and> map_option writes
       (run Some [LoadSettles (Session \<lparr>s_intervalMs = Some NaN, s_images = []\<rparr>),
                  Elapse 400, TimerFires 1]
            (mount (Some \<lparr>s_intervalMs = Some NaN, s_images = []\<rparr>)))
       = Some [(400, \<lparr>s_intervalMs = Some NaN, s_images = []\<rparr>)]
   \<and> \<not> in_range NaN
   \<and> \<not> (num_le (Num 16) NaN \<and> num_le NaN (Num 10000))"
  by (simp add: eval_defs example_app_def in_range_def)

subsection \<open>The debounce\<close>

lemma debounce_ok_inv: "app_inv False w \<Longrightarrow> debounce_ok w"
  by (simp add: app_inv_def saves_ok_def debounce_ok_def)

lemma pending_saves_cleanup: "debounce_ok w \<Longrightarrow> pending_saves (save_cleanup w) = []"
  by (auto simp: pending_saves_def save_cleanup_eq debounce_ok_def filter_empty_conv)

lemma pending_saves_clearTimers_Nil:
  "pending_saves w = [] \<Longrightarrow> pending_saves (clearTimers w) = []"
  by (auto simp: pending_saves_def clearTimers_eq filter_empty_conv)

lemma pending_saves_save_effect:
  "pending_saves (save_effect w)
     = pending_saves w @ [(real (clock w) + real SAVE_DEBOUNCE_MS, payload w)]"
  by (simp add: pending_saves_def save_effect_eq)

lemma pending_saves_playback_effect_fresh:
  "timeoutRef w = None \<Longrightarrow> pending_saves (playback_effect w) = pending_saves w"
  by (simp add: pending_saves_def playback_effect_eq clearTimers_eq)

lemma saveTimer_prims:
  "saveTimer (clearTimers w) = saveTimer w"
  "saveTimer (save_cleanup w) = saveTimer w"
  "saveTimer (playback_effect w) = saveTimer w"
  by (simp_all add: clearTimers_eq save_cleanup_eq playback_effect_eq)

lemma commit_request:
  assumes "debounce_ok new" "saveTimer (commit t old new) \<noteq> saveTimer new"
  shows "pending_saves (commit t old new)
           = [(real (clock new) + real SAVE_DEBOUNCE_MS, payload new)]"
proof -
  have c: "clock (save_cleanup new) = clock new" "payload (save_cleanup new) = payload new"
    "clock (clearTimers (save_cleanup new)) = clock new"
    "payload (clearTimers (save_cleanup new)) = payload new"
    by (simp_all add: save_cleanup_eq clearTimers_eq)
  have n: "pending_saves (save_cleanup new) = []"
    using assms(1) by (rule pending_saves_cleanup)
  have a: "pending_saves (save_effect (save_cleanup new))
             = [(real (clock new) + real SAVE_DEBOUNCE_MS, payload new)]"
    by (simp add: pending_saves_save_effect n c)
  have "pending_saves (save_effect (clearTimers (save_cleanup new)))
             = [(real (clock new) + real SAVE_DEBOUNCE_MS, payload new)]"
    by (simp add: pending_saves_save_effect pending_saves_clearTimers_Nil [OF n] c)
  moreover have "timeoutRef (save_effect (clearTimers (save_cleanup new))) = None"
    by (simp add: save_effect_eq clearTimers_eq)
  ultimately have b: "pending_saves (playback_effect (save_effect (clearTimers (save_cleanup new))))
             = [(real (clock new) + real SAVE_DEBOUNCE_MS, payload new)]"
    by (simp add: pending_saves_playback_effect_fresh)
  show ?thesis
  proof (cases "isPlaying old \<noteq> isPlaying new \<or> length (images old) \<noteq> length (images new)
                 \<or> clampedInterval old \<noteq> clampedInterval new")
    case True
    show ?thesis
    proof (cases "t \<or> clampedInterval old \<noteq> clampedInterval new")
      case s: True
      with True have "commit t old new
          = playback_effect (save_effect (clearTimers (save_cleanup new)))"
        unfolding commit_cases by auto
      with b show ?thesis by simp
    next
      case s: False
      with True have "commit t old new = playback_effect (clearTimers new)"
        unfolding commit_cases by auto
      with assms(2) show ?thesis by (simp add: saveTimer_prims)
    qed
  next
    case False
    show ?thesis
    proof (cases t)
      case True
      with False have "commit t old new = save_effect (save_cleanup new)"
        unfolding commit_cases by auto
      with a show ?thesis by simp
    next
      case f: False
      with False have "commit t old new = new"
        unfolding commit_cases by auto
      with assms(2) show ?thesis by simp
    qed
  qed
qed

lemma debounce_ok_same_runtime:
  "debounce_ok w \<Longrightarrow> same_runtime w new \<Longrightarrow> debounce_ok new"
  by (simp add: debounce_ok_def same_runtime_def)

lemma request_handler:
  assumes "debounce_ok w" "same_runtime w new"
      and "saveTimer (commit t old new) \<noteq> saveTimer w"
  shows "pending_saves (commit t old new)
           = [(real (clock (commit t old new)) + real SAVE_DEBOUNCE_MS, payload (commit t old new))]
       \<and> writes (commit t old new) = writes w \<and> clock (commit t old new) = clock w"
proof -
  have d: "debounce_ok new" using assms(1,2) by (rule debounce_ok_same_runtime)
  have s: "saveTimer new = saveTimer w" "writes new = writes w" "clock new = clock w"
    using assms(2) by (simp_all add: same_runtime_def)
  have st: "same_state new (commit t old new)" by (rule same_state_commit)
  then have "payload (commit t old new) = payload new"
    by (simp add: payload_def same_state_def clampedInterval_same [OF st])
  moreover from st have "writes (commit t old new) = writes new" "clock (commit t old new) = clock new"
    by (simp_all add: same_state_def)
  moreover have "pending_saves (commit t old new)
           = [(real (clock new) + real SAVE_DEBOUNCE_MS, payload new)]"
    using d assms(3) s(1) by (intro commit_request) simp_all
  ultimately show ?thesis using s by simp
qed

lemma saveTimer_tick: "tick l c w = Some w' \<Longrightarrow> saveTimer w' = saveTimer w"
  by (auto simp: tick_def setTimeout_def split: if_splits)

lemma saveTimer_step_frame:
  "step_frame now pl l c start w = Some w' \<Longrightarrow> saveTimer w' = saveTimer w"
  by (auto simp: step_frame_def requestAnimationFrame_def split: if_splits)

lemma saveTimer_timer_fires:
  assumes "timer_fires h w = Some w'"
  shows "saveTimer w' = saveTimer w"
proof (cases "find (\<lambda>e. t_handle e = h) (timers w)")
  case None
  with assms show ?thesis by (simp add: timer_fires_def)
next
  case (Some e)
  show ?thesis
  proof (cases "t_due e \<le> real (clock w)")
    case True
    show ?thesis
    proof (cases "t_callback e")
      case (SaveCb p)
      with Some True assms show ?thesis by (auto simp: timer_fires_def saveSession_def)
    next
      case (TickCb l c)
      with Some True assms have
        "tick l c (w\<lparr>timers := filter (\<lambda>e. t_handle e \<noteq> h) (timers w)\<rparr>) = Some w'"
        by (simp add: timer_fires_def)
      from saveTimer_tick [OF this] show ?thesis by simp
    qed
  next
    case False
    with Some assms show ?thesis by (simp add: timer_fires_def)
  qed
qed

lemma saveTimer_frame_fires:
  assumes "frame_fires h w = Some w'"
  shows "saveTimer w' = saveTimer w"
proof (cases "find (\<lambda>e. f_handle e = h) (frames w)")
  case None
  with assms show ?thesis by (simp add: frame_fires_def)
next
  case (Some e)
  obtain pl l c start where cb: "f_callback e = StepCb pl l c start" by (cases "f_callback e")
  with Some assms have
    "step_frame (real (clock w)) pl l c start
       (w\<lparr>frames := filter (\<lambda>e. f_handle e \<noteq> h) (frames w)\<rparr>) = Some w'"
    by (simp add: frame_fires_def)
  from saveTimer_step_frame [OF this] show ?thesis by simp
qed

lemma saveTimer_browser:
  assumes "browser ev" "step toUrl ev w = Some w'"
  shows "saveTimer w' = saveTimer w"
  using assms saveTimer_timer_fires saveTimer_frame_fires by (cases ev) auto

lemma request_step:
  assumes "app_inv False w" "step toUrl ev w = Some w'" "saveTimer w' \<noteq> saveTimer w"
  shows "pending_saves w' = [(real (clock w') + real SAVE_DEBOUNCE_MS, payload w')]
       \<and> writes w' = writes w \<and> clock w' = clock w"
proof -
  have d: "debounce_ok w" using assms(1) by (rule debounce_ok_inv)
  have nb: "\<not> browser ev" using saveTimer_browser assms(2,3) by blast
  show ?thesis
  proof (cases ev)
    case (LoadSettles r)
    let ?w0 = "w\<lparr>loadPending := False\<rparr>"
    have lp: "loadPending w"
      using LoadSettles assms(2,3) by (cases "loadPending w") auto
    obtain session where r: "r = Session session"
      using LoadSettles assms(2,3) lp by (cases r) (auto simp: Let_def)
    obtain w1 where
      w1: "restore toUrl session ?w0 = Some w1" "w' = commit True ?w0 w1"
      using LoadSettles assms(2,3) lp r
      by (cases "restore toUrl session ?w0") (auto simp: Let_def)
    have "same_runtime w w1" using restore_runtime [OF w1(1)] by (simp add: same_runtime_def)
    from request_handler [OF d this, of True ?w0] assms(3) w1(2) show ?thesis by simp
  next
    case (FilesChosen files)
    with assms(2,3) show ?thesis by (auto split: files_outcome.splits)
  next
    case (FilesRead k)
    let ?w0 = "w\<lparr>inflight := take k (inflight w) @ drop (Suc k) (inflight w)\<rparr>"
    from FilesRead assms(2,3) have
      w': "w' = commit True ?w0 (handleFiles_commit (inflight w ! k) ?w0)"
      by (auto simp: Let_def split: if_splits)
    have "same_runtime w (handleFiles_commit (inflight w ! k) ?w0)"
      by (simp add: same_runtime_def handleFiles_commit_def)
    from request_handler [OF d this, of True ?w0] assms(3) w' show ?thesis by simp
  next
    case (Remove ident)
    with assms(2) have w': "w' = commit True w (handleRemove ident w)" by simp
    from request_handler [OF d same_runtime_handlers(1), of True w ident] assms(3) w'
    show ?thesis by simp
  next
    case Start
    with assms(2) have w': "w' = commit False w (handleStart w)" by simp
    from request_handler [OF d same_runtime_handlers(2), of False w] assms(3) w'
    show ?thesis by simp
  next
    case Stop
    with assms(2) have w': "w' = commit False w (handleStop w)" by simp
    have hs: "handleStop w = (clearTimers w)\<lparr>isPlaying := False\<rparr>"
      by (simp add: handleStop_def clearTimers_eq)
    have "saveTimer (commit False w (handleStop w)) = saveTimer (handleStop w)"
      by (simp add: commit_cases hs clearTimers_eq playback_effect_eq)
    with assms(3) w' show ?thesis by (simp add: hs clearTimers_eq)
  next
    case SpaceKey
    with assms(2) have w': "w' = commit False w (handleKey w)" by simp
    have "saveTimer (commit False w (handleKey w)) = saveTimer w"
      by (simp add: commit_cases handleKey_def handleStop_def handleStart_def clearTimers_eq
            playback_effect_eq)
    with assms(3) w' show ?thesis by simp
  next
    case (IntervalChange v)
    with assms(2) have w': "w' = commit False w (handleIntervalChange v w)" by simp
    from request_handler [OF d same_runtime_handlers(3), of False w v] assms(3) w'
    show ?thesis by simp
  next
    case (DragStart i)
    with assms(2,3) show ?thesis by (auto simp: onDragStart_def)
  next
    case (DragEnter i)
    with assms(2,3) show ?thesis by (auto simp: onDragEnter_def)
  next
    case DragEnd
    then obtain w1 where w1: "onDragEnd w = Some w1"
      and w': "w' = commit (dragItem w \<noteq> None \<and> dragOverItem w \<noteq> None \<and> dragItem w \<noteq> dragOverItem w) w w1"
      using assms(2) by (auto split: option.splits)
    from request_handler [OF d onDragEnd_runtime(1) [OF w1], of _ w] assms(3) w'
    show ?thesis by simp
  qed (use nb in simp_all)
qed

lemma pending_saves_filter_other:
  assumes "distinct (map t_handle ts)" "e \<in> set ts" "\<not> is_SaveCb (t_callback e)"
  shows "filter (\<lambda>x. is_SaveCb (t_callback x)) (filter (\<lambda>x. t_handle x \<noteq> t_handle e) ts)
           = filter (\<lambda>x. is_SaveCb (t_callback x)) ts"
proof -
  have "inj_on t_handle (set ts)" using assms(1) by (simp add: distinct_map)
  then have "t_handle x \<noteq> t_handle e" if "x \<in> set ts" "is_SaveCb (t_callback x)" for x
    using that assms(2,3) by (auto dest: inj_onD)
  then show ?thesis by (auto simp: filter_filter intro: filter_cong)
qed

lemma browser_step:
  assumes "app_inv False w" "browser ev"
  shows "\<exists>w'. step toUrl ev w = Some w' \<and> app_inv False w' \<and> clock w' = clock w + elapsed [ev]
            \<and> saveTimer w' = saveTimer w
            \<and> (pending_saves w' = pending_saves w \<and> writes w' = writes w
               \<or> (\<exists>e \<in> set (timers w). is_SaveCb (t_callback e) \<and> t_due e \<le> real (clock w)
                     \<and> writes w' = writes w @ [(clock w, save_payload (t_callback e))]
                     \<and> timers w' = filter (\<lambda>x. t_handle x \<noteq> t_handle e) (timers w)))"
proof (cases ev)
  case (Elapse d)
  with inv_elapse [OF assms(1), of d] show ?thesis by (simp add: pending_saves_def)
next
  case (TimerFires h)
  show ?thesis
  proof (cases "find (\<lambda>e. t_handle e = h) (timers w)")
    case None
    with TimerFires assms(1) show ?thesis by (simp add: timer_fires_def)
  next
    case (Some e)
    then have e: "e \<in> set (timers w)" "t_handle e = h" by (auto dest: find_SomeD)
    show ?thesis
    proof (cases "t_due e \<le> real (clock w)")
      case False
      with TimerFires Some assms(1) show ?thesis by (simp add: timer_fires_def)
    next
      case True
      show ?thesis
      proof (cases "t_callback e")
        case (SaveCb p)
        let ?w' = "saveSession p (w\<lparr>timers := filter (\<lambda>x. t_handle x \<noteq> h) (timers w)\<rparr>)"
        have "step toUrl ev w = Some ?w'"
          using TimerFires Some True SaveCb by (simp add: timer_fires_def)
        moreover have "app_inv False ?w'" using inv_fire_save [OF assms(1) e(1) SaveCb True] .
        moreover have "\<exists>e \<in> set (timers w). is_SaveCb (t_callback e) \<and> t_due e \<le> real (clock w)
                     \<and> writes ?w' = writes w @ [(clock w, save_payload (t_callback e))]
                     \<and> timers ?w' = filter (\<lambda>x. t_handle x \<noteq> t_handle e) (timers w)"
          using e True SaveCb by (intro bexI [of _ e]) (simp_all add: saveSession_def)
        moreover have "clock ?w' = clock w + elapsed [ev]" "saveTimer ?w' = saveTimer w"
          using TimerFires by (simp_all add: saveSession_def)
        ultimately show ?thesis by blast
      next
        case (TickCb l c)
        let ?w0 = "w\<lparr>timers := filter (\<lambda>x. t_handle x \<noteq> t_handle e) (timers w)\<rparr>"
        from inv_fire_tick [OF assms(1) e(1) TickCb] obtain w' where
          w': "tick l c ?w0 = Some w'" "app_inv False w'"
              "same_state (w\<lparr>currentIndex := currentIndex w'\<rparr>) w'" by blast
        have l: "0 < l" using assms(1) e(1) TickCb
          by (auto simp: app_inv_def playback_ok_def closures_ok_def)
        have st: "step toUrl ev w = Some w'"
          using TimerFires Some True TickCb w'(1) e(2) by (simp add: timer_fires_def)
        have d: "distinct (map t_handle (timers w))"
          using assms(1) by (simp add: app_inv_def handles_ok_def)
        have "pending_saves w' = pending_saves ?w0"
          using w'(1) by (auto simp: tick_result [OF l] pending_saves_def)
        also have "\<dots> = pending_saves w"
          using pending_saves_filter_other [OF d e(1)] TickCb by (simp add: pending_saves_def)
        finally have ps: "pending_saves w' = pending_saves w" .
        have "saveTimer w' = saveTimer w" using saveTimer_tick [OF w'(1)] by simp
        with st w' ps TimerFires show ?thesis by (simp add: same_state_def)
      qed
    qed
  qed
next
  case (FrameFires h)
  show ?thesis
  proof (cases "find (\<lambda>e. f_handle e = h) (frames w)")
    case None
    with FrameFires assms(1) show ?thesis by (simp add: frame_fires_def)
  next
    case (Some e)
    then have e: "e \<in> set (frames w)" "f_handle e = h" by (auto dest: find_SomeD)
    obtain pl l c start where cb: "f_callback e = StepCb pl l c start" by (cases "f_callback e")
    let ?w0 = "w\<lparr>frames := filter (\<lambda>x. f_handle x \<noteq> f_handle e) (frames w)\<rparr>"
    from inv_fire_frame [OF assms(1) e(1) cb] obtain w' where
      w': "step_frame (real (clock w)) pl l c start ?w0 = Some w'" "app_inv False w'"
          "same_state (w\<lparr>currentIndex := currentIndex w'\<rparr>) w'" by blast
    have l: "0 < l" "pl" using assms(1) e(1) cb
      by (auto simp: app_inv_def playback_ok_def closures_ok_def)
    have st: "step toUrl ev w = Some w'"
      using FrameFires Some cb w'(1) e(2) by (simp add: frame_fires_def)
    have ps: "pending_saves w' = pending_saves w"
      using w'(1) l(2) by (auto simp: step_frame_result [OF l(1)] pending_saves_def)
    have "saveTimer w' = saveTimer w" using saveTimer_step_frame [OF w'(1)] by simp
    with st w' ps FrameFires show ?thesis by (simp add: same_state_def)
  qed
qed (use assms(2) in simp_all)

lemma pending_saves_member:
  "e \<in> set (timers w) \<Longrightarrow> is_SaveCb (t_callback e)
     \<Longrightarrow> (t_due e, save_payload (t_callback e)) \<in> set (pending_saves w)"
  by (auto simp: pending_saves_def)

lemma dormant_step:
  assumes "app_inv False w" "browser ev" "pending_saves w = [(due, p)]"
      and "real (clock w + elapsed [ev]) < due"
  shows "\<exists>w'. step toUrl ev w = Some w' \<and> app_inv False w' \<and> clock w' = clock w + elapsed [ev]
            \<and> saveTimer w' = saveTimer w \<and> pending_saves w' = [(due, p)] \<and> writes w' = writes w"
proof -
  from browser_step [OF assms(1,2), of toUrl] obtain w' where
    w': "step toUrl ev w = Some w'" "app_inv False w'" "clock w' = clock w + elapsed [ev]"
        "saveTimer w' = saveTimer w"
        "pending_saves w' = pending_saves w \<and> writes w' = writes w
         \<or> (\<exists>e \<in> set (timers w). is_SaveCb (t_callback e) \<and> t_due e \<le> real (clock w)
                     \<and> writes w' = writes w @ [(clock w, save_payload (t_callback e))]
                     \<and> timers w' = filter (\<lambda>x. t_handle x \<noteq> t_handle e) (timers w))"
    by blast
  have "\<not> (\<exists>e \<in> set (timers w). is_SaveCb (t_callback e) \<and> t_due e \<le> real (clock w))"
  proof
    assume "\<exists>e \<in> set (timers w). is_SaveCb (t_callback e) \<and> t_due e \<le> real (clock w)"
    then obtain e where e: "e \<in> set (timers w)" "is_SaveCb (t_callback e)"
      "t_due e \<le> real (clock w)" by blast
    from pending_saves_member [OF e(1,2)] assms(3) have "t_due e = due" by simp
    with e(3) assms(4) show False by simp
  qed
  with w' assms(3) show ?thesis by auto
qed

lemma dormant_run:
  assumes "app_inv False w" "list_all browser bs" "pending_saves w = [(due, p)]"
      and "real (clock w + elapsed bs) < due"
  shows "\<exists>w'. run toUrl bs w = Some w' \<and> app_inv False w' \<and> clock w' = clock w + elapsed bs
            \<and> saveTimer w' = saveTimer w \<and> pending_saves w' = [(due, p)] \<and> writes w' = writes w"
  using assms
proof (induction bs arbitrary: w)
  case Nil
  then show ?case by simp
next
  case (Cons ev bs)
  from Cons.prems(2) have b: "browser ev" "list_all browser bs" by simp_all
  have el: "elapsed (ev # bs) = elapsed [ev] + elapsed bs" by (cases ev) simp_all
  with Cons.prems(4) have "real (clock w + elapsed [ev]) < due" by simp
  from dormant_step [OF Cons.prems(1) b(1) Cons.prems(3) this, of toUrl] obtain w1 where
    w1: "step toUrl ev w = Some w1" "app_inv False w1" "clock w1 = clock w + elapsed [ev]"
        "saveTimer w1 = saveTimer w" "pending_saves w1 = [(due, p)]" "writes w1 = writes w"
    by blast
  from Cons.prems(4) el w1(3) have "real (clock w1 + elapsed bs) < due" by simp
  from Cons.IH [OF w1(2) b(2) w1(5) this] w1 el show ?case by auto
qed

lemma idle_run:
  assumes "app_inv False w" "list_all browser bs" "pending_saves w = []"
  shows "\<exists>w'. run toUrl bs w = Some w' \<and> app_inv False w' \<and> pending_saves w' = []
            \<and> writes w' = writes w"
  using assms
proof (induction bs arbitrary: w)
  case Nil
  then show ?case by simp
next
  case (Cons ev bs)
  from Cons.prems(2) have b: "browser ev" "list_all browser bs" by simp_all
  from browser_step [OF Cons.prems(1) b(1), of toUrl] obtain w1 where
    w1: "step toUrl ev w = Some w1" "app_inv False w1"
        "pending_saves w1 = pending_saves w \<and> writes w1 = writes w
         \<or> (\<exists>e \<in> set (timers w). is_SaveCb (t_callback e) \<and> t_due e \<le> real (clock w)
                     \<and> writes w1 = writes w @ [(clock w, save_payload (t_callback e))]
                     \<and> timers w1 = filter (\<lambda>x. t_handle x \<noteq> t_handle e) (timers w))"
    by blast
  have "\<not> (\<exists>e \<in> set (timers w). is_SaveCb (t_callback e))"
    using Cons.prems(3) pending_saves_member by fastforce
  with w1(3) Cons.prems(3) have "pending_saves w1 = []" "writes w1 = writes w" by auto
  from Cons.IH [OF w1(2) b(2) this(1)] this(2) w1(1) show ?case by auto
qed

lemma fire_pending_save:
  assumes "app_inv False w" "pending_saves w = [(due, p)]" "due \<le> real (clock w)"
  shows "\<exists>h w'. saveTimer w = Some h \<and> timer_fires h w = Some w' \<and> app_inv False w'
            \<and> writes w' = writes w @ [(clock w, p)] \<and> store w' = Some p
            \<and> pending_saves w' = []"
proof -
  from assms(2) have "filter (\<lambda>e. is_SaveCb (t_callback e)) (timers w) \<noteq> []"
    by (auto simp: pending_saves_def)
  then obtain e where e: "e \<in> set (timers w)" "is_SaveCb (t_callback e)"
    by (auto simp: filter_empty_conv)
  from pending_saves_member [OF e] assms(2) have dp: "t_due e = due" "save_payload (t_callback e) = p"
    by simp_all
  with e(2) have cb: "t_callback e = SaveCb p" by (cases "t_callback e") simp_all
  from assms(1) e have h: "saveTimer w = Some (t_handle e)"
    by (simp add: app_inv_def saves_ok_def)
  have d: "distinct (map t_handle (timers w))"
    using assms(1) by (simp add: app_inv_def handles_ok_def)
  then have f: "find (\<lambda>x. t_handle x = t_handle e) (timers w) = Some e"
    using e(1) by (rule find_distinct)
  let ?w' = "saveSession p (w\<lparr>timers := filter (\<lambda>x. t_handle x \<noteq> t_handle e) (timers w)\<rparr>)"
  have due: "t_due e \<le> real (clock w)" using dp(1) assms(3) by simp
  have tf: "timer_fires (t_handle e) w = Some ?w'"
    using f due cb by (simp add: timer_fires_def)
  have i: "app_inv False ?w'" using inv_fire_save [OF assms(1) e(1) cb due] .
  have all: "\<forall>x \<in> set (timers w). is_SaveCb (t_callback x) \<longrightarrow> t_handle x = t_handle e"
    using assms(1) h by (auto simp: app_inv_def saves_ok_def)
  have "pending_saves ?w' = []"
    using all by (auto simp: pending_saves_def saveSession_def filter_empty_conv)
  with h tf i show ?thesis by (simp add: saveSession_def)
qed

lemma burst_invariant:
  assumes "app_inv False w" "pending_saves w = [(real (clock w) + real SAVE_DEBOUNCE_MS, payload w)]"
      and "burst toUrl segs w = Some w'"
  shows "app_inv False w' \<and> pending_saves w' = [(real (clock w') + real SAVE_DEBOUNCE_MS, payload w')]
       \<and> writes w' = writes w"
  using assms
proof (induction segs arbitrary: w)
  case Nil
  then show ?case by simp
next
  case (Cons seg segs)
  obtain gap req where seg: "seg = (gap, req)" by (cases seg)
  from Cons.prems(3) seg have g: "list_all browser gap" "elapsed gap < SAVE_DEBOUNCE_MS"
    by (auto split: if_splits)
  from g(2) have "real (clock w + elapsed gap) < real (clock w) + real SAVE_DEBOUNCE_MS" by simp
  from dormant_run [OF Cons.prems(1) g(1) Cons.prems(2) this, of toUrl] obtain w1 where
    w1: "run toUrl gap w = Some w1" "app_inv False w1" "writes w1 = writes w" by blast
  from Cons.prems(3) seg g w1(1) obtain w2 where
    w2: "step toUrl req w1 = Some w2" "saveTimer w2 \<noteq> saveTimer w1" "burst toUrl segs w2 = Some w'"
    by (auto split: option.splits if_splits)
  from request_step [OF w1(2) w2(1,2)] have
    r: "pending_saves w2 = [(real (clock w2) + real SAVE_DEBOUNCE_MS, payload w2)]"
       "writes w2 = writes w1" by simp_all
  have "app_inv False w2" using inv_step [OF w1(2) w2(1)] .
  from Cons.IH [OF this r(1) w2(3)] r(2) w1(3) show ?case by simp
qed

text \<open>
  Claim C9.  From any reachable state, let an event issue a save request and let a
  burst of further requests follow, each less than 400 ms after the previous one, with
  any timers and frames the browser tries to run in between.  Then nothing is written
  during the burst, and afterwards exactly one save is pending: it is due 400 ms after
  the last request and carries the snapshot of the state at that request.  Once 400 ms
  or more have passed and the browser runs that timer, it is written and stored, no
  save remains pending, and no further browser activity writes anything.
\<close>

theorem debounced_save_once:
  assumes "run toUrl evs (mount st) = Some w0"
      and "step toUrl req w0 = Some w1" "saveTimer w1 \<noteq> saveTimer w0"
      and "burst toUrl rest w1 = Some w2"
      and "SAVE_DEBOUNCE_MS \<le> d" "list_all browser bs"
  shows "writes w2 = writes w0
       \<and> pending_saves w2 = [(real (clock w2) + 400, payload w2)]
       \<and> (\<exists>h w3 w4. saveTimer w2 = Some h
             \<and> run toUrl [Elapse d, TimerFires h] w2 = Some w3
             \<and> writes w3 = writes w0 @ [(clock w2 + d, payload w2)]
             \<and> store w3 = Some (payload w2)
             \<and> pending_saves w3 = []
             \<and> run toUrl bs w3 = Some w4 \<and> writes w4 = writes w3)"
proof -
  have i0: "app_inv False w0" using assms(1) by (rule inv_reachable)
  have i1: "app_inv False w1" using inv_step [OF i0 assms(2)] .
  from request_step [OF i0 assms(2,3)] have
    r1: "pending_saves w1 = [(real (clock w1) + real SAVE_DEBOUNCE_MS, payload w1)]"
        "writes w1 = writes w0" by simp_all
  from burst_invariant [OF i1 r1(1) assms(4)] r1(2) have
    b: "app_inv False w2" "pending_saves w2 = [(real (clock w2) + real SAVE_DEBOUNCE_MS, payload w2)]"
       "writes w2 = writes w0" by simp_all
  let ?w2' = "w2\<lparr>clock := clock w2 + d\<rparr>"
  have i2: "app_inv False ?w2'" using b(1) by (rule inv_elapse)
  have p2: "pending_saves ?w2' = [(real (clock w2) + real SAVE_DEBOUNCE_MS, payload w2)]"
    using b(2) by (simp add: pending_saves_def)
  have due: "real (clock w2) + real SAVE_DEBOUNCE_MS \<le> real (clock ?w2')"
    using assms(5) by simp
  from fire_pending_save [OF i2 p2 due] obtain h w3 where
    w3: "saveTimer w2 = Some h" "timer_fires h ?w2' = Some w3" "app_inv False w3"
        "writes w3 = writes w2 @ [(clock w2 + d, payload w2)]" "store w3 = Some (payload w2)"
        "pending_saves w3 = []" by auto
  from idle_run [OF w3(3) assms(6) w3(6), of toUrl] obtain w4 where
    w4: "run toUrl bs w3 = Some w4" "writes w4 = writes w3" by blast
  have "run toUrl [Elapse d, TimerFires h] w2 = Some w3" using w3(2) by simp
  with b w3 w4 show ?thesis by (auto simp: SAVE_DEBOUNCE_MS_def)
qed

theorem debounced_save_once_witness:
  "\<exists>w0 w1 w2 w3 w4.
     run Some [FilesChosen (Some example_files), FilesRead 0] (mount None) = Some w0
   \<and> step Some (Remove ''a'') w0 = Some w1
   \<and> burst Some [([Elapse 100, TimerFires 2], IntervalChange (Num 50)),
                  ([Elapse 399, TimerFires 3], Remove ''b'')] w1 = Some w2
   \<and> run Some [Elapse 400, TimerFires 4] w2 = Some w3
   \<and> writes w3 = [(899, \<lparr>s_intervalMs = Some (Num 50),
                           s_images = [\<lparr>sid = ''c'', sname = ''c.png'', sdataUrl = ''data:c''\<rparr>]\<rparr>)]
   \<and> run Some [Elapse 1000, TimerFires 4, TimerFires 0] w3 = Some w4
   \<and> writes w4 = writes w3"
proof -
  let ?T0 = "run Some [FilesChosen (Some example_files), FilesRead 0] (mount None)"
  let ?T1 = "Option.bind ?T0 (step Some (Remove ''a''))"
  let ?T2 = "Option.bind ?T1 (burst Some [([Elapse 100, TimerFires 2], IntervalChange (Num 50)),
                  ([Elapse 399, TimerFires 3], Remove ''b'')])"
  have a: "map_option saveTimer ?T0 = Some (Some 1)" "map_option writes ?T0 = Some []"
    by (simp_all add: eval_defs)
  have b: "map_option saveTimer ?T1 = Some (Some 2)"
    by (simp add: eval_defs)
  have c: "map_option saveTimer ?T2 = Some (Some 4)" "map_option clock ?T2 = Some 499"
    "map_option payload ?T2 = Some \<lparr>s_intervalMs = Some (Num 50),
        s_images = [\<lparr>sid = ''c'', sname = ''c.png'', sdataUrl = ''data:c''\<rparr>]\<rparr>"
    by (simp_all add: eval_defs)
  from a obtain w0 where w0: "?T0 = Some w0" "saveTimer w0 = Some 1" "writes w0 = []"
    by (cases ?T0) simp_all
  from b w0(1) obtain w1 where w1: "step Some (Remove ''a'') w0 = Some w1" "saveTimer w1 = Some 2"
    by (cases "step Some (Remove ''a'') w0") simp_all
  have T2: "?T2 = burst Some [([Elapse 100, TimerFires 2], IntervalChange (Num 50)),
                  ([Elapse 399, TimerFires 3], Remove ''b'')] w1"
    by (simp only: w0(1) w1(1) Option.bind.simps)
  from c obtain w2 where w2: "?T2 = Some w2" "saveTimer w2 = Some 4" "clock w2 = 499"
    "payload w2 = \<lparr>s_intervalMs = Some (Num 50),
        s_images = [\<lparr>sid = ''c'', sname = ''c.png'', sdataUrl = ''data:c''\<rparr>]\<rparr>"
    by (cases ?T2) simp_all
  have ne: "saveTimer w1 \<noteq> saveTimer w0" using w0(2) w1(2) by simp
  have d: "SAVE_DEBOUNCE_MS \<le> 400" by (simp add: SAVE_DEBOUNCE_MS_def)
  have bs: "list_all browser [Elapse 1000, TimerFires 4, TimerFires 0]" by simp
  from debounced_save_once [OF w0(1) w1(1) ne w2(1) [unfolded T2] d bs] obtain h w3 w4 where
    w: "saveTimer w2 = Some h" "run Some [Elapse 400, TimerFires h] w2 = Some w3"
       "writes w3 = writes w0 @ [(clock w2 + 400, payload w2)]"
       "run Some [Elapse 1000, TimerFires 4, TimerFires 0] w3 = Some w4" "writes w4 = writes w3"
    by blast
  from w(1) w2(2) have h: "h = 4" by simp
  from w(3) w0(3) w2(3,4) have "writes w3 = [(899, \<lparr>s_intervalMs = Some (Num 50),
                           s_images = [\<lparr>sid = ''c'', sname = ''c.png'', sdataUrl = ''data:c''\<rparr>]\<rparr>)]"
    by simp
  with w0(1) w1(1) w2(1) [unfolded T2] w h show ?thesis by blast
qed

section \<open>Playback\<close>

lemma quiet_handleStop: "playback_ok w \<Longrightarrow> quiet (handleStop w)"
proof -
  assume "playback_ok w"
  then have "quiet (clearTimers w)"
    using closures_ok_clearTimers by (auto simp: playback_ok_def)
  moreover have "handleStop w = (clearTimers w)\<lparr>isPlaying := False\<rparr>"
    by (simp add: handleStop_def clearTimers_eq)
  ultimately show ?thesis by (simp add: quiet_def)
qed

lemma stopped_step_Stop:
  assumes "app_inv False w"
  shows "\<exists>w1. step toUrl Stop w = Some w1 \<and> app_inv False w1 \<and> quiet w1 \<and> \<not> isPlaying w1
            \<and> currentIndex w1 = currentIndex w"
proof -
  let ?w1 = "commit False w (handleStop w)"
  have st: "same_state (handleStop w) ?w1" by (rule same_state_commit)
  have hs: "\<not> isPlaying (handleStop w)" "currentIndex (handleStop w) = currentIndex w"
    by (simp_all add: handleStop_def clearTimers_eq)
  have q: "quiet (handleStop w)"
    using assms by (intro quiet_handleStop) (simp add: app_inv_def)
  have "quiet ?w1" using q hs(1) by (intro quiet_commit) simp_all
  moreover have "app_inv False ?w1" using assms by (rule inv_handleStop_commit)
  ultimately show ?thesis using st hs by (simp add: same_state_def)
qed

lemma quiet_browser_step:
  assumes "app_inv False w" "quiet w" "browser ev"
  shows "\<exists>w'. step toUrl ev w = Some w' \<and> app_inv False w' \<and> quiet w'
            \<and> currentIndex w' = currentIndex w \<and> isPlaying w' = isPlaying w"
proof (cases ev)
  case (Elapse d)
  with assms(1,2) inv_elapse [OF assms(1), of d] show ?thesis by (simp add: quiet_def)
next
  case (TimerFires h)
  show ?thesis
  proof (cases "find (\<lambda>e. t_handle e = h) (timers w)")
    case None
    with TimerFires assms show ?thesis by (simp add: timer_fires_def)
  next
    case (Some e)
    then have e: "e \<in> set (timers w)" by (auto dest: find_SomeD)
    with assms(2) have "\<not> is_TickCb (t_callback e)" by (simp add: quiet_def)
    then obtain p where p: "t_callback e = SaveCb p" by (cases "t_callback e") simp_all
    show ?thesis
    proof (cases "t_due e \<le> real (clock w)")
      case True
      let ?w' = "saveSession p (w\<lparr>timers := filter (\<lambda>x. t_handle x \<noteq> h) (timers w)\<rparr>)"
      have "step toUrl ev w = Some ?w'"
        using TimerFires Some True p by (simp add: timer_fires_def)
      moreover have "app_inv False ?w'" using inv_fire_save [OF assms(1) e p True] .
      moreover have "quiet ?w'" using assms(2) by (simp add: quiet_def saveSession_def)
      ultimately show ?thesis by (simp add: saveSession_def)
    next
      case False
      with TimerFires Some assms show ?thesis by (simp add: timer_fires_def)
    qed
  qed
next
  case (FrameFires h)
  from assms(2) have "frames w = []" by (simp add: quiet_def)
  with FrameFires assms show ?thesis by (simp add: frame_fires_def)
qed (use assms(3) in simp_all)

lemma quiet_browser_run:
  assumes "app_inv False w" "quiet w" "list_all browser bs"
  shows "\<exists>w'. run toUrl bs w = Some w' \<and> app_inv False w' \<and> quiet w'
            \<and> currentIndex w' = currentIndex w \<and> isPlaying w' = isPlaying w"
  using assms
proof (induction bs arbitrary: w)
  case Nil
  then show ?case by simp
next
  case (Cons ev bs)
  from Cons.prems have "browser ev" "list_all browser bs" by simp_all
  from quiet_browser_step [OF Cons.prems(1,2) this(1), of toUrl]
  obtain w1 where w1: "step toUrl ev w = Some w1" "app_inv False w1" "quiet w1"
    "currentIndex w1 = currentIndex w" "isPlaying w1 = isPlaying w" by blast
  from Cons.IH [OF w1(2,3) \<open>list_all browser bs\<close>] w1 show ?case by auto
qed

text \<open>
  Claim C8.  In every reachable state \<^verbatim>\<open>handleStop\<close> leaves no playback timeout and
  no animation frame pending, already before the next render; and after the Stop
  event, whatever time passes and whichever timers and frames the browser tries to
  run, playback stays stopped, the index keeps the value it had at the stop and no
  playback callback becomes pending.
\<close>

theorem handleStop_cancels_all:
  assumes "run toUrl evs (mount st) = Some w" "list_all browser bs"
  shows "(\<forall>e \<in> set (timers (handleStop w)). \<not> is_TickCb (t_callback e))
       \<and> frames (handleStop w) = []
       \<and> (\<exists>w1 w2. step toUrl Stop w = Some w1 \<and> run toUrl bs w1 = Some w2
             \<and> \<not> isPlaying w2 \<and> currentIndex w2 = currentIndex w
             \<and> (\<forall>e \<in> set (timers w2). \<not> is_TickCb (t_callback e)) \<and> frames w2 = [])"
proof -
  have i: "app_inv False w" using assms(1) by (rule inv_reachable)
  then have "quiet (handleStop w)" by (intro quiet_handleStop) (simp add: app_inv_def)
  then have a: "(\<forall>e \<in> set (timers (handleStop w)). \<not> is_TickCb (t_callback e))
       \<and> frames (handleStop w) = []" by (simp add: quiet_def)
  from stopped_step_Stop [OF i, of toUrl] obtain w1 where
    w1: "step toUrl Stop w = Some w1" "app_inv False w1" "quiet w1" "\<not> isPlaying w1"
        "currentIndex w1 = currentIndex w" by blast
  from quiet_browser_run [OF w1(2,3) assms(2), of toUrl] obtain w2 where
    w2: "run toUrl bs w1 = Some w2" "quiet w2" "currentIndex w2 = currentIndex w1"
        "isPlaying w2 = isPlaying w1" by blast
  from w2(2) have "(\<forall>e \<in> set (timers w2). \<not> is_TickCb (t_callback e)) \<and> frames w2 = []"
    by (simp add: quiet_def)
  with a w1 w2 show ?thesis by auto
qed

theorem handleStop_cancels_all_witness:
  "\<exists>w w1 w2. run Some [FilesChosen (Some example_files), FilesRead 0, Start, Elapse 100, TimerFires 2]
        (mount None) = Some w
     \<and> isPlaying w \<and> currentIndex w = 1
     \<and> list_all browser [Elapse 100, TimerFires 3, FrameFires 3, Elapse 5000, TimerFires 3]
     \<and> step Some Stop w = Some w1
     \<and> run Some [Elapse 100, TimerFires 3, FrameFires 3, Elapse 5000, TimerFires 3] w1 = Some w2
     \<and> \<not> isPlaying w2 \<and> currentIndex w2 = 1 \<and> frames w2 = []"
proof -
  have "\<exists>w. run Some [FilesChosen (Some example_files), FilesRead 0, Start, Elapse 100, TimerFires 2]
        (mount None) = Some w \<and> isPlaying w \<and> currentIndex w = 1"
    by (simp add: eval_defs)
  then obtain w where
    r: "run Some [FilesChosen (Some example_files), FilesRead 0, Start, Elapse 100, TimerFires 2]
        (mount None) = Some w" and w: "isPlaying w" "currentIndex w = 1" by blast
  have b: "list_all browser [Elapse 100, TimerFires 3, FrameFires 3, Elapse 5000, TimerFires 3]"
    by simp
  from handleStop_cancels_all [OF r b] w b r show ?thesis by auto
qed











end
